theory Spec2Isabelle
  imports Complex_Main
begin


section \<open>JavaScript values\<close>

text \<open>
  The values that flow through TJSON.  A number is a double: \<open>NaN\<close>, an integer
  (\<open>Whole\<close>), or a number that is not an integer, \<open>Frac m k\<close> for \<open>m / 2^k\<close> with
  \<open>m\<close> odd and \<open>k\<close> positive.  Negative zero is identified with zero (both are falsy
  and both print as \<open>0\<close>), and the infinities are outside the model.  A string is a
  list of 8-bit characters.  An object is the list of its own enumerable properties in
  enumeration order, an array the list of its elements, a Map the list of its entries
  and a Set the list of its members, both in insertion order.  Values are trees: no
  object is reachable along two paths.
\<close>

datatype jsnum = NaN | Whole int | Frac int nat

datatype jsval =
    VUndefined
  | VNull
  | VBool bool
  | VNum jsnum
  | VBigInt int
  | VStr string
  | VRegExp string string
  | VDate jsnum
  | VArr "jsval list"
  | VObj "(string \<times> jsval) list"
  | VMap "(jsval \<times> jsval) list"
  | VSet "jsval list"

text \<open>
  What a call can throw.  The messages of \<open>Error\<close> and of the two argument checks
  are the source's; a built-in's message is the engine's own and the model fixes a
  descriptive one.  \<open>Unmodelled\<close> is not a JavaScript outcome: it marks a result that
  depends on the host or lies outside the modelled values.
\<close>

datatype error =
    Error string
  | TypeError string
  | SyntaxError string
  | Unmodelled

fun is_TypeError :: "error \<Rightarrow> bool" where
  "is_TypeError (TypeError m) = True"
| "is_TypeError e = False"

text \<open>
  A JavaScript function stored in the registry.  User functions are pure functions of
  their argument that may throw; they do not re-enter TJSON and do not mutate what they
  are given.  The four standard functions that re-enter \<open>TJSON.stringify\<close> and
  \<open>TJSON.parse\<close> (and so read the registry when they run) are named.
\<close>

datatype fn =
    Pure "jsval \<Rightarrow> error + jsval"
  | MapReplacer
  | MapReviver
  | SetReplacer
  | SetReviver

text \<open>An argument of a public call: a function, or a value that is not one.\<close>

datatype arg = FnArg fn | ValArg jsval

section \<open>The registry\<close>

record replacer_entry =
  rp_tag :: string
  rp_check :: fn
  rp_exec :: fn

record reviver_entry =
  rv_tag :: string
  rv_exec :: fn

text \<open>The two static arrays \<open>TJSON.replacers\<close> and \<open>TJSON.revivers\<close>.\<close>

record registry =
  replacers :: "replacer_entry list"
  revivers :: "reviver_entry list"

definition empty_registry :: registry where
  "empty_registry = \<lparr>replacers = [], revivers = []\<rparr>"

text \<open>\<open>isFunction\<close> and \<open>isString\<close> throw or return nothing; the model hands back
  the argument at the type it has been checked to have.\<close>

definition isFunction :: "arg \<Rightarrow> error + fn" where
  "isFunction val =
     (case val of
        FnArg f \<Rightarrow> Inr f
      | ValArg v \<Rightarrow> Inl (TypeError ''argument is not a function''))"

definition isString :: "arg \<Rightarrow> error + string" where
  "isString val =
     (case val of
        ValArg (VStr s) \<Rightarrow> Inr s
      | _ \<Rightarrow> Inl (TypeError ''argument is not a string''))"

text \<open>\<open>xs.indexOf(xs.find(p))\<close>: the index of the first element that satisfies
  \<open>p\<close>, or \<open>-1\<close> (every entry is an object of its own, so \<open>indexOf\<close> finds the
  element \<open>find\<close> returned at its first position; \<open>indexOf(undefined)\<close> is
  \<open>-1\<close>).\<close>

fun index_of_first :: "('a \<Rightarrow> bool) \<Rightarrow> 'a list \<Rightarrow> int" where
  "index_of_first p [] = -1"
| "index_of_first p (x # xs) =
     (if p x then 0
      else (let i = index_of_first p xs in if i < 0 then -1 else i + 1))"

text \<open>\<open>find\<close>, lines 122-129.  Both indices are looked up in \<open>TJSON.replacers\<close>,
  as the source does.  \<open>None\<close> is \<open>undefined\<close>.\<close>

definition find_tag :: "arg \<Rightarrow> registry \<Rightarrow> error + (int \<times> int) option" where
  "find_tag tag reg =
     (case isString tag of
        Inl e \<Rightarrow> Inl e
      | Inr t \<Rightarrow>
          (let replacer = index_of_first (\<lambda>e. rp_tag e = t) (replacers reg);
               reviver = index_of_first (\<lambda>e. rp_tag e = t) (replacers reg)
           in if replacer \<ge> 0 \<and> reviver \<ge> 0 then Inr (Some (replacer, reviver))
              else Inr None))"

text \<open>
  The objects the fluent calls return.  Each is a closure over what it has captured:
  the tag, the check function, or the pair of indices \<open>find\<close> returned when
  \<open>modify\<close> was called.
\<close>

datatype builder =
    AddBuilder string
  | CheckBuilder string fn
  | ReplacerBuilder string
  | ModifyBuilder string int int

datatype meth = MCheck | MReplacer | MReviver

text \<open>\<open>add\<close>, lines 46-51: the duplicate test; nothing is pushed yet.\<close>

definition add :: "arg \<Rightarrow> registry \<Rightarrow> error + builder" where
  "add tag reg =
     (case isString tag of
        Inl e \<Rightarrow> Inl e
      | Inr t \<Rightarrow>
          (case find_tag tag reg of
             Inl e \<Rightarrow> Inl e
           | Inr (Some found) \<Rightarrow> Inl (Error ''Replacer/ Reviver already exists'')
           | Inr None \<Rightarrow> Inr (AddBuilder t)))"

text \<open>\<open>modify\<close>, lines 89-95.\<close>

definition modify :: "arg \<Rightarrow> registry \<Rightarrow> error + builder" where
  "modify tag reg =
     (case isString tag of
        Inl e \<Rightarrow> Inl e
      | Inr t \<Rightarrow>
          (case find_tag tag reg of
             Inl e \<Rightarrow> Inl e
           | Inr None \<Rightarrow> Inl (Error ''Replacer/ Reviver not found'')
           | Inr (Some (i, j)) \<Rightarrow> Inr (ModifyBuilder t i j)))"

text \<open>\<open>xs[i].field = v\<close>: a TypeError when \<open>xs[i]\<close> is undefined.\<close>

definition set_at :: "'a list \<Rightarrow> int \<Rightarrow> ('a \<Rightarrow> 'a) \<Rightarrow> error + 'a list" where
  "set_at xs i upd =
     (if 0 \<le> i \<and> nat i < length xs then Inr (xs[nat i := upd (xs ! nat i)])
      else Inl (TypeError ''cannot set properties of undefined''))"

text \<open>
  A method call on a builder, with the registry before and after.  The result is the
  next builder, or \<open>None\<close> for \<open>undefined\<close> (what the add chain's \<open>reviver\<close>
  returns).  A method the object does not have is a TypeError.
\<close>

fun invoke :: "builder \<Rightarrow> meth \<Rightarrow> arg \<Rightarrow> registry \<Rightarrow> (error + builder option) \<times> registry" where
  "invoke (AddBuilder tag) MCheck checkExec reg =
     (case isFunction checkExec of
        Inl e \<Rightarrow> (Inl e, reg)
      | Inr c \<Rightarrow> (Inr (Some (CheckBuilder tag c)), reg))"
| "invoke (CheckBuilder tag c) MReplacer replaceExec reg =
     (case isFunction replaceExec of
        Inl e \<Rightarrow> (Inl e, reg)
      | Inr r \<Rightarrow>
          (Inr (Some (ReplacerBuilder tag)),
           reg\<lparr>replacers := replacers reg @ [\<lparr>rp_tag = tag, rp_check = c, rp_exec = r\<rparr>]\<rparr>))"
| "invoke (ReplacerBuilder tag) MReviver reviveExec reg =
     (case isFunction reviveExec of
        Inl e \<Rightarrow> (Inl e, reg)
      | Inr v \<Rightarrow>
          (Inr None, reg\<lparr>revivers := revivers reg @ [\<lparr>rv_tag = tag, rv_exec = v\<rparr>]\<rparr>))"
| "invoke (ModifyBuilder tag i j) MCheck exec reg =
     (case isFunction exec of
        Inl e \<Rightarrow> (Inl e, reg)
      | Inr f \<Rightarrow>
          (case set_at (replacers reg) i (\<lambda>e. e\<lparr>rp_check := f\<rparr>) of
             Inl e \<Rightarrow> (Inl e, reg)
           | Inr rs \<Rightarrow>
               (let reg' = reg\<lparr>replacers := rs\<rparr>
                in (map_sum id Some (modify (ValArg (VStr tag)) reg'), reg'))))"
| "invoke (ModifyBuilder tag i j) MReplacer exec reg =
     (case isFunction exec of
        Inl e \<Rightarrow> (Inl e, reg)
      | Inr f \<Rightarrow>
          (case set_at (replacers reg) i (\<lambda>e. e\<lparr>rp_exec := f\<rparr>) of
             Inl e \<Rightarrow> (Inl e, reg)
           | Inr rs \<Rightarrow>
               (let reg' = reg\<lparr>replacers := rs\<rparr>
                in (map_sum id Some (modify (ValArg (VStr tag)) reg'), reg'))))"
| "invoke (ModifyBuilder tag i j) MReviver exec reg =
     (case isFunction exec of
        Inl e \<Rightarrow> (Inl e, reg)
      | Inr f \<Rightarrow>
          (case set_at (revivers reg) j (\<lambda>e. e\<lparr>rv_exec := f\<rparr>) of
             Inl e \<Rightarrow> (Inl e, reg)
           | Inr vs \<Rightarrow>
               (let reg' = reg\<lparr>revivers := vs\<rparr>
                in (map_sum id Some (modify (ValArg (VStr tag)) reg'), reg'))))"
| "invoke b m a reg = (Inl (TypeError ''not a function''), reg)"

text \<open>A method call on the result of the previous call, which may be \<open>undefined\<close>.\<close>

definition invoke_on :: "builder option \<Rightarrow> meth \<Rightarrow> arg \<Rightarrow> registry \<Rightarrow> (error + builder option) \<times> registry" where
  "invoke_on obj m a reg =
     (case obj of
        None \<Rightarrow> (Inl (TypeError ''cannot read properties of undefined''), reg)
      | Some b \<Rightarrow> invoke b m a reg)"

text \<open>The rest of one chained expression \<open>obj.m1(a1).m2(a2)...\<close>: each method is
  called on what the call before it returned, and the first throw ends the expression.\<close>

fun chained :: "builder option \<Rightarrow> (meth \<times> arg) list \<Rightarrow> registry \<Rightarrow> (error + builder option) \<times> registry" where
  "chained obj [] reg = (Inr obj, reg)"
| "chained obj ((m, a) # rest) reg =
     (case invoke_on obj m a reg of
        (Inl e, reg') \<Rightarrow> (Inl e, reg')
      | (Inr obj', reg') \<Rightarrow> chained obj' rest reg')"

text \<open>\<open>Array.prototype.array_splice(start, deleteCount)\<close> with no items to insert.\<close>

definition array_splice :: "'a list \<Rightarrow> int \<Rightarrow> int \<Rightarrow> 'a list" where
  "array_splice xs start deleteCount =
     (let len = int (length xs);
          s = (if start < 0 then max (len + start) 0 else min start len);
          d = min (max deleteCount 0) (len - s)
      in take (nat s) xs @ drop (nat (s + d)) xs)"

text \<open>\<open>remove\<close>, lines 157-163.  Destructuring \<open>undefined\<close> throws a TypeError;
  \<open>replacer && reviver\<close> is true when neither index is \<open>0\<close>.\<close>

definition remove_tag :: "arg \<Rightarrow> registry \<Rightarrow> (error + unit) \<times> registry" where
  "remove_tag tag reg =
     (case find_tag tag reg of
        Inl e \<Rightarrow> (Inl e, reg)
      | Inr None \<Rightarrow> (Inl (TypeError ''undefined is not iterable''), reg)
      | Inr (Some (replacer, reviver)) \<Rightarrow>
          (if replacer \<noteq> 0 \<and> reviver \<noteq> 0
           then (Inr (),
                 reg\<lparr>replacers := array_splice (replacers reg) replacer 0,
                     revivers := array_splice (revivers reg) reviver 0\<rparr>)
           else (Inr (), reg)))"

text \<open>One chained expression that starts with \<open>TJSON.add(tag)\<close> or
  \<open>TJSON.modify(tag)\<close>.\<close>

definition add_chain :: "arg \<Rightarrow> (meth \<times> arg) list \<Rightarrow> registry \<Rightarrow> (error + builder option) \<times> registry" where
  "add_chain tag ms reg =
     (case add tag reg of
        Inl e \<Rightarrow> (Inl e, reg)
      | Inr b \<Rightarrow> chained (Some b) ms reg)"

definition modify_chain :: "arg \<Rightarrow> (meth \<times> arg) list \<Rightarrow> registry \<Rightarrow> (error + builder option) \<times> registry" where
  "modify_chain tag ms reg =
     (case modify tag reg of
        Inl e \<Rightarrow> (Inl e, reg)
      | Inr b \<Rightarrow> chained (Some b) ms reg)"

section \<open>Numbers and strings of the host\<close>

fun typeof :: "jsval \<Rightarrow> string" where
  "typeof VUndefined = ''undefined''"
| "typeof (VBool b) = ''boolean''"
| "typeof (VNum n) = ''number''"
| "typeof (VBigInt n) = ''bigint''"
| "typeof (VStr s) = ''string''"
| "typeof v = ''object''"

text \<open>Truthiness (\<open>ToBoolean\<close>).\<close>

fun truthy :: "jsval \<Rightarrow> bool" where
  "truthy VUndefined = False"
| "truthy VNull = False"
| "truthy (VBool b) = b"
| "truthy (VNum NaN) = False"
| "truthy (VNum (Whole n)) = (n \<noteq> 0)"
| "truthy (VBigInt n) = (n \<noteq> 0)"
| "truthy (VStr s) = (s \<noteq> [])"
| "truthy v = True"

definition digit_char :: "nat \<Rightarrow> char" where
  "digit_char d = ''0123456789abcdefghijklmnopqrstuvwxyz'' ! d"

text \<open>The value of a digit in radix 36, upper or lower case.\<close>

definition digit_value :: "char \<Rightarrow> nat option" where
  "digit_value ch =
     (let c = (of_char ch :: nat)
      in if 48 \<le> c \<and> c \<le> 57 then Some (c - 48)
         else if 97 \<le> c \<and> c \<le> 122 then Some (c - 87)
         else if 65 \<le> c \<and> c \<le> 90 then Some (c - 55)
         else None)"

definition is_digit_in :: "nat \<Rightarrow> char \<Rightarrow> bool" where
  "is_digit_in radix ch = (case digit_value ch of Some d \<Rightarrow> d < radix | None \<Rightarrow> False)"

text \<open>The digits of a natural number in a radix from 2 to 36, most significant first.\<close>

function digits_in :: "nat \<Rightarrow> nat \<Rightarrow> string" where
  "digits_in radix n =
     (if n < radix \<or> radix < 2 then [digit_char n]
      else digits_in radix (n div radix) @ [digit_char (n mod radix)])"
  by pat_completeness auto
termination
  by (relation "measure snd") auto

declare digits_in.simps [simp del]

text \<open>The number a digit string denotes; a character that is no digit counts as zero
  (callers pass digit strings only).\<close>

fun digits_value :: "nat \<Rightarrow> nat \<Rightarrow> string \<Rightarrow> nat" where
  "digits_value radix acc [] = acc"
| "digits_value radix acc (c # cs) =
     digits_value radix (acc * radix + (case digit_value c of Some d \<Rightarrow> d | None \<Rightarrow> 0)) cs"

definition int_to_string :: "nat \<Rightarrow> int \<Rightarrow> string" where
  "int_to_string radix n =
     (if n < 0 then CHR ''-'' # digits_in radix (nat (- n)) else digits_in radix (nat n))"


section \<open>The numbers of the host\<close>

text \<open>The integers a double holds exactly.\<close>

definition safe_integer :: "int \<Rightarrow> bool" where
  "safe_integer n = (\<bar>n\<bar> \<le> 9007199254740992)"

subsection \<open>The double nearest to a fraction\<close>

text \<open>
  A finite double is \<open>m * 2^e\<close> for a significand \<open>m < 2^53\<close> and an exponent
  \<open>e \<ge> -1074\<close>, below \<open>2^1024\<close>.  \<open>nearest_double p q\<close> is the significand and the
  exponent of the double nearest to \<open>p / q\<close>, a tie going to the even significand, as
  the host rounds the value of a numeral and the result of an arithmetic operation:
  the exponent is that of the binade of \<open>p / q\<close> (\<open>binary_exponent\<close> is the floor of its
  binary logarithm), not below that of the denormalised numbers, and the significand
  is \<open>p / q\<close> over \<open>2^e\<close>, rounded.  A significand of \<open>2^53\<close> stands for \<open>2^52\<close> with the
  next exponent.
\<close>

function bit_length :: "nat \<Rightarrow> nat" where
  "bit_length n = (if n = 0 then 0 else Suc (bit_length (n div 2)))"
  by pat_completeness auto
termination
  by (relation "measure id") auto

declare bit_length.simps [simp del]

text \<open>The fraction \<open>p / q\<close> over \<open>2^e\<close>.\<close>

definition scaled :: "nat \<Rightarrow> nat \<Rightarrow> int \<Rightarrow> nat \<times> nat" where
  "scaled p q e = (if 0 \<le> e then (p, q * 2 ^ nat e) else (p * 2 ^ nat (- e), q))"

definition binary_exponent :: "nat \<Rightarrow> nat \<Rightarrow> int" where
  "binary_exponent p q =
     (if snd (scaled p q (int (bit_length p) - int (bit_length q)))
           \<le> fst (scaled p q (int (bit_length p) - int (bit_length q)))
      then int (bit_length p) - int (bit_length q)
      else int (bit_length p) - int (bit_length q) - 1)"

definition round_half_even :: "nat \<Rightarrow> nat \<Rightarrow> nat" where
  "round_half_even a b =
     (if 2 * (a mod b) < b then a div b
      else if b < 2 * (a mod b) then a div b + 1
      else if even (a div b) then a div b
      else a div b + 1)"

definition double_exponent :: "nat \<Rightarrow> nat \<Rightarrow> int" where
  "double_exponent p q = max (binary_exponent p q - 52) (- 1074)"

definition nearest_double :: "nat \<Rightarrow> nat \<Rightarrow> nat \<times> int" where
  "nearest_double p q =
     (if p = 0 then (0, 0)
      else (round_half_even (fst (scaled p q (double_exponent p q)))
                            (snd (scaled p q (double_exponent p q))),
            double_exponent p q))"

subsection \<open>Number values\<close>

text \<open>
  The number value with a sign, a significand and an exponent: an integer is
  \<open>Whole\<close>, another number is \<open>Frac m k\<close> with \<open>m\<close> odd; \<open>reduce\<close> cancels the twos.
  \<open>None\<close> is an infinity, which the model does not hold.
\<close>

fun reduce :: "nat \<Rightarrow> nat \<Rightarrow> nat \<times> nat" where
  "reduce m 0 = (m, 0)"
| "reduce m (Suc k) = (if even m then reduce (m div 2) k else (m, Suc k))"

definition signed :: "bool \<Rightarrow> nat \<Rightarrow> int" where
  "signed negative n = (if negative then - int n else int n)"

definition finite_of :: "bool \<Rightarrow> nat \<times> int \<Rightarrow> jsnum option" where
  "finite_of negative me =
     (if fst me = 0 then Some (Whole 0)
      else if 0 \<le> snd me then
        (if fst me * 2 ^ nat (snd me) < 2 ^ 1024
         then Some (Whole (signed negative (fst me * 2 ^ nat (snd me)))) else None)
      else (case reduce (fst me) (nat (- snd me)) of
              (m, 0) \<Rightarrow> Some (Whole (signed negative m))
            | (m, Suc k) \<Rightarrow> Some (Frac (signed negative m) (Suc k))))"

text \<open>The number a decimal numeral denotes: the double nearest to \<open>d * 10^x\<close>.\<close>

definition decimal_number :: "bool \<Rightarrow> nat \<Rightarrow> int \<Rightarrow> jsnum option" where
  "decimal_number negative d x =
     finite_of negative
       (if 0 \<le> x then nearest_double (d * 10 ^ nat x) 1 else nearest_double d (10 ^ nat (- x)))"

text \<open>
  The finite number values: an integer that is a double (below \<open>2^1024\<close>, and with
  no bit set more than 52 places below its highest), and a fraction \<open>m / 2^k\<close> that is
  one.
\<close>

fun finite_number :: "jsnum \<Rightarrow> bool" where
  "finite_number NaN = False"
| "finite_number (Whole n) =
     (\<bar>n\<bar> < 2 ^ 1024 \<and> nat \<bar>n\<bar> mod 2 ^ (bit_length (nat \<bar>n\<bar>) - 53) = 0)"
| "finite_number (Frac m k) = (odd m \<and> 0 < k \<and> k \<le> 1074 \<and> \<bar>m\<bar> < 2 ^ 53)"

fun is_negative :: "jsnum \<Rightarrow> bool" where
  "is_negative NaN = False"
| "is_negative (Whole n) = (n < 0)"
| "is_negative (Frac m k) = (m < 0)"

fun absolute :: "jsnum \<Rightarrow> jsnum" where
  "absolute NaN = NaN"
| "absolute (Whole n) = Whole \<bar>n\<bar>"
| "absolute (Frac m k) = Frac \<bar>m\<bar> k"

text \<open>The absolute value of a number as a fraction, and the number of binary places
  after its point.\<close>

fun magnitude :: "jsnum \<Rightarrow> nat" where
  "magnitude NaN = 0"
| "magnitude (Whole n) = nat \<bar>n\<bar>"
| "magnitude (Frac m k) = nat \<bar>m\<bar>"

fun places :: "jsnum \<Rightarrow> nat" where
  "places NaN = 0"
| "places (Whole n) = 0"
| "places (Frac m k) = k"

subsection \<open>The decimal text of a number\<close>

text \<open>
  \<open>Number::toString\<close> in radix 10 writes the shortest decimal numeral that denotes the
  number: digits \<open>s\<close> and an exponent \<open>j\<close> with \<open>s * 10^j\<close> read back as the number,
  \<open>s\<close> of as few digits as possible, and among those the nearest to the number (the
  even one when two are as near).

  \<open>decimal_exponent p q\<close> is the \<open>n\<close> with \<open>10^(n-1) \<le> p / q < 10^n\<close>.  With \<open>k\<close>
  digits, the numerals next to the number are its quotient by \<open>10^(n-k)\<close>, rounded
  down, and the one above (which is \<open>10^n\<close> after \<open>9...9\<close>).  \<open>shortest_from\<close> tries
  \<open>k\<close>, \<open>k + 1\<close>, ... up to the \<open>k\<close> at which the number is written out exactly.
\<close>

function decimal_exponent :: "nat \<Rightarrow> nat \<Rightarrow> int" where
  "decimal_exponent p q =
     (if p = 0 \<or> q = 0 then 0
      else if q \<le> p then int (length (digits_in 10 (p div q)))
      else decimal_exponent (10 * p) q - 1)"
  by pat_completeness auto
termination
  by (relation "measure (\<lambda>(p, q). q - p)") auto

declare decimal_exponent.simps [simp del]

definition lower_numeral :: "nat \<Rightarrow> nat \<Rightarrow> int \<Rightarrow> nat \<Rightarrow> nat" where
  "lower_numeral p q n k =
     (if n \<le> int k then (p * 10 ^ nat (int k - n)) div q else p div (q * 10 ^ nat (n - int k)))"

definition lower_is_nearer :: "nat \<Rightarrow> nat \<Rightarrow> int \<Rightarrow> nat \<Rightarrow> bool" where
  "lower_is_nearer p q n k =
     (let a = (if n \<le> int k then p * 10 ^ nat (int k - n) else p);
          b = (if n \<le> int k then q else q * 10 ^ nat (n - int k));
          lo = lower_numeral p q n k
      in 2 * a < (2 * lo + 1) * b \<or> (2 * a = (2 * lo + 1) * b \<and> even lo))"

definition upper_numeral :: "nat \<Rightarrow> nat \<Rightarrow> int \<Rightarrow> nat \<Rightarrow> nat \<times> int" where
  "upper_numeral p q n k =
     (if lower_numeral p q n k + 1 < 10 ^ k then (lower_numeral p q n k + 1, n - int k) else (1, n))"

definition reads_as :: "jsnum \<Rightarrow> nat \<times> int \<Rightarrow> bool" where
  "reads_as x sj = (decimal_number False (fst sj) (snd sj) = Some x)"

function shortest_from :: "jsnum \<Rightarrow> int \<Rightarrow> nat \<Rightarrow> nat \<times> int" where
  "shortest_from x n k =
     (if reads_as x (lower_numeral (magnitude x) (2 ^ places x) n k, n - int k)
         \<and> (lower_is_nearer (magnitude x) (2 ^ places x) n k
             \<or> \<not> reads_as x (upper_numeral (magnitude x) (2 ^ places x) n k))
      then (lower_numeral (magnitude x) (2 ^ places x) n k, n - int k)
      else if reads_as x (upper_numeral (magnitude x) (2 ^ places x) n k)
      then upper_numeral (magnitude x) (2 ^ places x) n k
      else if n + int (places x) \<le> int k
      then (lower_numeral (magnitude x) (2 ^ places x) n k, n - int k)
      else shortest_from x n (Suc k))"
  by pat_completeness auto
termination
  by (relation "measure (\<lambda>(x, n, k). nat (n + int (places x) - int k))") auto

declare shortest_from.simps [simp del]

definition shortest_decimal :: "jsnum \<Rightarrow> nat \<times> int" where
  "shortest_decimal x = shortest_from x (decimal_exponent (magnitude x) (2 ^ places x)) 1"

text \<open>
  How the digits are laid out, \<open>n\<close> being the place of the point after the first of
  the \<open>k\<close> digits: as an integer with zeros after the digits, with a point among the
  digits, with zeros after a point before the digits, or with an exponent.
\<close>

definition zeros :: "nat \<Rightarrow> string" where
  "zeros n = replicate n CHR ''0''"

definition exponent_text :: "int \<Rightarrow> string" where
  "exponent_text e = (if 0 \<le> e then CHR ''+'' else CHR ''-'') # digits_in 10 (nat \<bar>e\<bar>)"

definition decimal_format :: "nat \<times> int \<Rightarrow> string" where
  "decimal_format sj =
     (let ds = digits_in 10 (fst sj);
          k = int (length ds);
          n = snd sj + k
      in if k \<le> n \<and> n \<le> 21 then ds @ zeros (nat (n - k))
         else if 0 < n \<and> n \<le> 21 then take (nat n) ds @ ''.'' @ drop (nat n) ds
         else if - 6 < n \<and> n \<le> 0 then ''0.'' @ zeros (nat (- n)) @ ds
         else if k = 1 then ds @ ''e'' @ exponent_text (n - 1)
         else hd ds # ''.'' @ tl ds @ ''e'' @ exponent_text (n - 1))"

text \<open>An integer a double holds exactly is its own shortest numeral.\<close>

fun decimal_text :: "jsnum \<Rightarrow> string" where
  "decimal_text NaN = ''NaN''"
| "decimal_text (Whole n) =
     (if safe_integer n then int_to_string 10 n
      else (if n < 0 then ''-'' else []) @ decimal_format (shortest_decimal (Whole \<bar>n\<bar>)))"
| "decimal_text (Frac m k) =
     (if m < 0 then ''-'' else []) @ decimal_format (shortest_decimal (Frac \<bar>m\<bar> k))"

subsection \<open>A fraction in another radix\<close>

text \<open>
  \<open>toString(radix)\<close> of a number that is not an integer, as V8 computes it in double
  arithmetic (every operation rounds its result to a double, \<open>rounded\<close>; the values
  are fractions \<open>(p, q)\<close>).  The digits of the integer part are followed by a point and
  digits of the fraction, one for each multiplication by the radix, until what is left
  is below \<open>delta\<close>, half the distance to the next double, itself multiplied along.
  When what is left is above one half (or is one half after an odd digit) and within
  \<open>delta\<close> of one, the last digit is rounded up, the carry going through digits that
  are the highest one (\<open>round_up\<close> on the digits, last first); a carry out of the
  fraction goes to the integer part and leaves no point.  The host's buffer bounds the
  number of digits.
\<close>

definition rounded :: "nat \<times> nat \<Rightarrow> nat \<times> nat" where
  "rounded pq =
     (if 0 \<le> snd (nearest_double (fst pq) (snd pq))
      then (fst (nearest_double (fst pq) (snd pq)) * 2 ^ nat (snd (nearest_double (fst pq) (snd pq))), 1)
      else (fst (nearest_double (fst pq) (snd pq)), 2 ^ nat (- snd (nearest_double (fst pq) (snd pq)))))"

definition times_radix :: "nat \<Rightarrow> nat \<times> nat \<Rightarrow> nat \<times> nat" where
  "times_radix radix a = rounded (fst a * radix, snd a)"

definition minus_digit :: "nat \<times> nat \<Rightarrow> nat \<Rightarrow> nat \<times> nat" where
  "minus_digit a d = rounded (fst a - d * snd a, snd a)"

definition double_sum :: "nat \<times> nat \<Rightarrow> nat \<times> nat \<Rightarrow> nat \<times> nat" where
  "double_sum a b = rounded (fst a * snd b + fst b * snd a, snd a * snd b)"

definition below :: "nat \<times> nat \<Rightarrow> nat \<times> nat \<Rightarrow> bool" where
  "below a b = (fst a * snd b < fst b * snd a)"

fun round_up :: "nat \<Rightarrow> nat list \<Rightarrow> nat list option" where
  "round_up radix [] = None"
| "round_up radix (d # ds) = (if d + 1 < radix then Some ((d + 1) # ds) else round_up radix ds)"

fun radix_fraction :: "nat \<Rightarrow> nat \<Rightarrow> nat \<times> nat \<Rightarrow> nat \<times> nat \<Rightarrow> nat list \<Rightarrow> nat list option" where
  "radix_fraction 0 radix fraction delta ds = Some ds"
| "radix_fraction (Suc fuel) radix fraction delta ds =
     (let shifted = times_radix radix fraction;
          delta' = times_radix radix delta;
          digit = fst shifted div snd shifted;
          left = minus_digit shifted digit
      in if (below (1, 2) left \<or> (2 * fst left = snd left \<and> odd digit))
            \<and> below (1, 1) (double_sum left delta')
         then round_up radix (digit # ds)
         else if below left delta' then Some (digit # ds)
         else radix_fraction fuel radix left delta' (digit # ds))"

definition radix_delta :: "nat \<Rightarrow> nat \<Rightarrow> nat \<times> nat" where
  "radix_delta m k =
     (let ulp = (if 0 \<le> double_exponent m (2 ^ k) then (2 ^ nat (double_exponent m (2 ^ k)), 1)
                 else (1, 2 ^ nat (- double_exponent m (2 ^ k))));
          half = rounded (fst ulp, 2 * snd ulp)
      in if below half (1, 2 ^ 1074) then (1, 2 ^ 1074) else half)"

definition radix_text :: "nat \<Rightarrow> int \<Rightarrow> nat \<Rightarrow> string" where
  "radix_text radix m k =
     (if m < 0 then ''-'' else []) @
     (if below (nat \<bar>m\<bar> mod 2 ^ k, 2 ^ k) (radix_delta (nat \<bar>m\<bar>) k)
      then digits_in radix (nat \<bar>m\<bar> div 2 ^ k)
      else (case radix_fraction 1100 radix (nat \<bar>m\<bar> mod 2 ^ k, 2 ^ k) (radix_delta (nat \<bar>m\<bar>) k) [] of
              None \<Rightarrow> digits_in radix (nat \<bar>m\<bar> div 2 ^ k + 1)
            | Some ds \<Rightarrow> digits_in radix (nat \<bar>m\<bar> div 2 ^ k) @ ''.'' @ map digit_char (rev ds)))"


text \<open>
  \<open>Number.prototype.toString(radix)\<close>.  In radix 10 it is the decimal text above.  In
  another radix an integer is written with all its digits, which is what the host does
  below \<open>2^53\<close> (from there on it fills in zeros for the digits a double does not
  hold, which the model does not follow), and a fraction as V8 writes it.
\<close>

fun number_to_string :: "nat \<Rightarrow> jsnum \<Rightarrow> string" where
  "number_to_string radix NaN = ''NaN''"
| "number_to_string radix (Whole n) =
     (if radix = 10 then decimal_text (Whole n) else int_to_string radix n)"
| "number_to_string radix (Frac m k) =
     (if radix = 10 then decimal_text (Frac m k) else radix_text radix m k)"

text \<open>White space as \<open>parseInt\<close>, \<open>BigInt\<close> and \<open>trim\<close> see it, among the 8-bit
  characters: TAB, LF, VT, FF, CR, SP and NBSP.\<close>

definition is_js_space :: "char \<Rightarrow> bool" where
  "is_js_space ch = ((of_char ch :: nat) \<in> {9, 10, 11, 12, 13, 32, 160})"

text \<open>
  \<open>parseInt(s, 36)\<close> on a string: leading white space and one sign are skipped, the
  longest prefix of radix-36 digits is read, and no digit at all gives \<open>NaN\<close>.  A value
  a double does not hold exactly would be rounded; the model does not say to what.
\<close>

definition parse_int36 :: "string \<Rightarrow> error + jsnum" where
  "parse_int36 inputString =
     (let S = dropWhile is_js_space inputString;
          sign = (case S of c # r \<Rightarrow> if c = CHR ''-'' then (-1::int) else 1 | [] \<Rightarrow> 1);
          S' = (case S of c # r \<Rightarrow> if c = CHR ''-'' \<or> c = CHR ''+'' then r else S | [] \<Rightarrow> S);
          Z = takeWhile (is_digit_in 36) S'
      in if Z = [] then Inr NaN
         else (let mathInt = int (digits_value 36 0 Z)
               in if safe_integer mathInt then Inr (Whole (sign * mathInt))
                  else Inl Unmodelled))"

text \<open>\<open>ToString\<close> of a primitive; of an object it runs the object's own conversion
  methods, which the model leaves out.\<close>

fun to_string :: "jsval \<Rightarrow> error + string" where
  "to_string VUndefined = Inr ''undefined''"
| "to_string VNull = Inr ''null''"
| "to_string (VBool b) = Inr (if b then ''true'' else ''false'')"
| "to_string (VNum n) = Inr (number_to_string 10 n)"
| "to_string (VBigInt n) = Inr (int_to_string 10 n)"
| "to_string (VStr s) = Inr s"
| "to_string v = Inl Unmodelled"

text \<open>\<open>v.toString(36)\<close>: the radix matters to numbers and big integers only, and
  \<open>undefined\<close> and \<open>null\<close> have no methods.\<close>

fun toString36 :: "jsval \<Rightarrow> error + jsval" where
  "toString36 VUndefined = Inl (TypeError ''cannot read properties of undefined'')"
| "toString36 VNull = Inl (TypeError ''cannot read properties of null'')"
| "toString36 (VBool b) = Inr (VStr (if b then ''true'' else ''false''))"
| "toString36 (VNum n) = Inr (VStr (number_to_string 36 n))"
| "toString36 (VBigInt n) = Inr (VStr (int_to_string 36 n))"
| "toString36 (VStr s) = Inr (VStr s)"
| "toString36 v = Inl Unmodelled"

text \<open>\<open>parseInt(v, 36)\<close>: the argument is converted to a string first.\<close>

definition parseInt36 :: "jsval \<Rightarrow> error + jsnum" where
  "parseInt36 v = (case to_string v of Inl e \<Rightarrow> Inl e | Inr s \<Rightarrow> parse_int36 s)"

text \<open>\<open>s.trim()\<close>.\<close>

definition trim :: "string \<Rightarrow> string" where
  "trim s = rev (dropWhile is_js_space (rev (dropWhile is_js_space s)))"

text \<open>
  \<open>StringToBigInt\<close>: white space is trimmed; the empty string is \<open>0n\<close>; otherwise a
  decimal numeral with an optional sign, or an unsigned numeral in radix 16, 8 or 2 after
  \<open>0x\<close>, \<open>0o\<close> or \<open>0b\<close>.  \<open>None\<close> is the SyntaxError.
\<close>

definition numeral_in :: "nat \<Rightarrow> string \<Rightarrow> int option" where
  "numeral_in radix ds =
     (if ds \<noteq> [] \<and> list_all (is_digit_in radix) ds then Some (int (digits_value radix 0 ds))
      else None)"

definition string_to_bigint :: "string \<Rightarrow> int option" where
  "string_to_bigint str =
     (let s = trim str
      in case s of
           [] \<Rightarrow> Some 0
         | c # r \<Rightarrow>
             if c = CHR ''-'' then map_option uminus (numeral_in 10 r)
             else if c = CHR ''+'' then numeral_in 10 r
             else if c = CHR ''0'' \<and> r \<noteq> [] \<and> hd r \<in> {CHR ''x'', CHR ''X''} then numeral_in 16 (tl r)
             else if c = CHR ''0'' \<and> r \<noteq> [] \<and> hd r \<in> {CHR ''o'', CHR ''O''} then numeral_in 8 (tl r)
             else if c = CHR ''0'' \<and> r \<noteq> [] \<and> hd r \<in> {CHR ''b'', CHR ''B''} then numeral_in 2 (tl r)
             else numeral_in 10 s)"

text \<open>\<open>BigInt(v)\<close>.\<close>

fun to_bigint :: "jsval \<Rightarrow> error + jsval" where
  "to_bigint (VBigInt n) = Inr (VBigInt n)"
| "to_bigint (VStr s) =
     (case string_to_bigint s of
        None \<Rightarrow> Inl (SyntaxError ''cannot convert to a BigInt'')
      | Some n \<Rightarrow> Inr (VBigInt n))"
| "to_bigint (VBool b) = Inr (VBigInt (if b then 1 else 0))"
| "to_bigint (VNum (Whole n)) = Inr (VBigInt n)"
| "to_bigint (VNum NaN) = Inl (Error ''RangeError: not an integer'')"
| "to_bigint (VNum (Frac m k)) = Inl (Error ''RangeError: not an integer'')"
| "to_bigint VUndefined = Inl (TypeError ''cannot convert undefined to a BigInt'')"
| "to_bigint VNull = Inl (TypeError ''cannot convert null to a BigInt'')"
| "to_bigint v = Inl Unmodelled"

text \<open>\<open>s.split(sep)\<close> for a separator that is not empty: the pieces between the
  occurrences of the separator, found left to right.\<close>

function string_split_acc :: "string \<Rightarrow> string \<Rightarrow> string \<Rightarrow> string list" where
  "string_split_acc sep cur [] = [rev cur]"
| "string_split_acc sep cur (c # cs) =
     (if sep \<noteq> [] \<and> take (length sep) (c # cs) = sep
      then rev cur # string_split_acc sep [] (drop (length sep) (c # cs))
      else string_split_acc sep (c # cur) cs)"
  by pat_completeness auto
termination
  by (relation "measure (\<lambda>(sep, cur, s). length s)") (auto simp: neq_Nil_conv)

definition string_split :: "string \<Rightarrow> string \<Rightarrow> string list" where
  "string_split s sep = string_split_acc sep [] s"

text \<open>
  \<open>RegExp(pattern, flags)\<close>.  A RegExp value is its \<open>source\<close> and its \<open>flags\<close> in
  canonical order.  The flags must be distinct; \<open>g i m s u y\<close> are taken as known to
  the host, \<open>d\<close> and \<open>v\<close> depend on its edition.  Whether a pattern is well formed,
  and what \<open>source\<close> a pattern gets, is decided by the host's pattern grammar; the
  model answers for patterns of letters, digits, spaces and underscores, which are
  their own source.
\<close>

definition plain_pattern :: "string \<Rightarrow> bool" where
  "plain_pattern p =
     (p \<noteq> [] \<and> list_all (\<lambda>ch. is_digit_in 36 ch \<or> ch = CHR '' '' \<or> ch = CHR ''_'') p)"

definition regexp_create :: "string \<Rightarrow> string option \<Rightarrow> error + jsval" where
  "regexp_create pattern flags =
     (let f = (case flags of None \<Rightarrow> [] | Some fl \<Rightarrow> fl)
      in if \<not> distinct f \<or> \<not> list_all (\<lambda>ch. ch \<in> set ''dgimsuvy'') f
         then Inl (SyntaxError ''invalid regular expression flags'')
         else if \<not> list_all (\<lambda>ch. ch \<in> set ''gimsuy'') f then Inl Unmodelled
         else if plain_pattern pattern then Inr (VRegExp pattern (filter (\<lambda>ch. ch \<in> set f) ''gimsuy''))
         else Inl Unmodelled)"

text \<open>\<open>new Date(n)\<close> for a number: \<open>TimeClip\<close> makes the date invalid beyond
  8.64e15 milliseconds and drops the fraction of a number that is not an integer
  (such a number is below \<open>2^52\<close>).\<close>

fun date_of :: "jsnum \<Rightarrow> jsval" where
  "date_of NaN = VDate NaN"
| "date_of (Whole n) = (if \<bar>n\<bar> \<le> 8640000000000000 then VDate (Whole n) else VDate NaN)"
| "date_of (Frac m k) = VDate (Whole (sgn m * (\<bar>m\<bar> div 2 ^ k)))"

section \<open>The standard codecs\<close>

text \<open>\<open>standards\<close>, lines 245-273: the functions of the six entries, in the order of
  the source.\<close>

definition number_check :: "jsval \<Rightarrow> error + jsval" where
  "number_check v = Inr (VBool (typeof v = ''number''))"

definition number_replacer :: "jsval \<Rightarrow> error + jsval" where
  "number_replacer v = toString36 v"

definition number_reviver :: "jsval \<Rightarrow> error + jsval" where
  "number_reviver v = map_sum id VNum (parseInt36 v)"

definition bigint_check :: "jsval \<Rightarrow> error + jsval" where
  "bigint_check v = Inr (VBool (typeof v = ''bigint''))"

definition bigint_replacer :: "jsval \<Rightarrow> error + jsval" where
  "bigint_replacer v = Inr v"

definition bigint_reviver :: "jsval \<Rightarrow> error + jsval" where
  "bigint_reviver v = to_bigint v"

definition regexp_check :: "jsval \<Rightarrow> error + jsval" where
  "regexp_check v = Inr (VBool (case v of VRegExp s f \<Rightarrow> True | _ \<Rightarrow> False))"

text \<open>\<open>v.source + "___flags___" + v.flags\<close>: a value without these properties
  yields \<open>undefined\<close> twice.\<close>

definition regexp_replacer :: "jsval \<Rightarrow> error + jsval" where
  "regexp_replacer v =
     (case v of
        VRegExp source flags \<Rightarrow> Inr (VStr (source @ ''___flags___'' @ flags))
      | VUndefined \<Rightarrow> Inl (TypeError ''cannot read properties of undefined'')
      | VNull \<Rightarrow> Inl (TypeError ''cannot read properties of null'')
      | VObj kvs \<Rightarrow> Inl Unmodelled
      | _ \<Rightarrow> Inr (VStr ''undefined___flags___undefined''))"

text \<open>\<open>RegExp.call(null, ...v.split("___flags___"))\<close>: only a string has
  \<open>split\<close>; arguments after the second are ignored.\<close>

definition regexp_reviver :: "jsval \<Rightarrow> error + jsval" where
  "regexp_reviver v =
     (case v of
        VStr s \<Rightarrow>
          (case string_split s ''___flags___'' of
             [] \<Rightarrow> Inl Unmodelled
           | [pattern] \<Rightarrow> regexp_create pattern None
           | pattern # flags # rest \<Rightarrow> regexp_create pattern (Some flags))
      | _ \<Rightarrow> Inl (TypeError ''v.split is not a function''))"

definition date_check :: "jsval \<Rightarrow> error + jsval" where
  "date_check v = Inr (VBool (case v of VDate n \<Rightarrow> True | _ \<Rightarrow> False))"

text \<open>\<open>v.valueOf().toString(36)\<close>: \<open>valueOf\<close> of a Date is its epoch value, of
  another value the value itself.\<close>

definition date_replacer :: "jsval \<Rightarrow> error + jsval" where
  "date_replacer v = (case v of VDate n \<Rightarrow> toString36 (VNum n) | _ \<Rightarrow> toString36 v)"

definition date_reviver :: "jsval \<Rightarrow> error + jsval" where
  "date_reviver v = map_sum id date_of (parseInt36 v)"

definition map_check :: "jsval \<Rightarrow> error + jsval" where
  "map_check v = Inr (VBool (case v of VMap es \<Rightarrow> True | _ \<Rightarrow> False))"

definition set_check :: "jsval \<Rightarrow> error + jsval" where
  "set_check v = Inr (VBool (case v of VSet xs \<Rightarrow> True | _ \<Rightarrow> False))"

record standard =
  s_tag :: string
  s_check :: fn
  s_replacer :: fn
  s_reviver :: fn

definition standards :: "standard list" where
  "standards =
     [\<lparr>s_tag = ''(00)'', s_check = Pure number_check,
        s_replacer = Pure number_replacer, s_reviver = Pure number_reviver\<rparr>,
      \<lparr>s_tag = ''(01)'', s_check = Pure bigint_check,
        s_replacer = Pure bigint_replacer, s_reviver = Pure bigint_reviver\<rparr>,
      \<lparr>s_tag = ''(02)'', s_check = Pure regexp_check,
        s_replacer = Pure regexp_replacer, s_reviver = Pure regexp_reviver\<rparr>,
      \<lparr>s_tag = ''(03)'', s_check = Pure date_check,
        s_replacer = Pure date_replacer, s_reviver = Pure date_reviver\<rparr>,
      \<lparr>s_tag = ''(04)'', s_check = Pure map_check,
        s_replacer = MapReplacer, s_reviver = MapReviver\<rparr>,
      \<lparr>s_tag = ''(05)'', s_check = Pure set_check,
        s_replacer = SetReplacer, s_reviver = SetReviver\<rparr>]"

text \<open>\<open>activateStandards\<close>, lines 221-223: \<open>forEach\<close> runs the whole chain for one
  standard after the other; a throw ends it and keeps what was registered before.\<close>

fun activate_each :: "standard list \<Rightarrow> registry \<Rightarrow> (error + unit) \<times> registry" where
  "activate_each [] reg = (Inr (), reg)"
| "activate_each (s # ss) reg =
     (case add_chain (ValArg (VStr (s_tag s)))
             [(MCheck, FnArg (s_check s)), (MReplacer, FnArg (s_replacer s)),
              (MReviver, FnArg (s_reviver s))] reg of
        (Inl e, reg') \<Rightarrow> (Inl e, reg')
      | (Inr r, reg') \<Rightarrow> activate_each ss reg')"

definition activateStandards :: "registry \<Rightarrow> (error + unit) \<times> registry" where
  "activateStandards reg = activate_each standards reg"

text \<open>The registry after \<open>activateStandards()\<close> on a fresh registry.\<close>

definition standard_registry :: registry where
  "standard_registry =
     \<lparr>replacers = map (\<lambda>s. \<lparr>rp_tag = s_tag s, rp_check = s_check s, rp_exec = s_replacer s\<rparr>) standards,
      revivers = map (\<lambda>s. \<lparr>rv_tag = s_tag s, rv_exec = s_reviver s\<rparr>) standards\<rparr>"

section \<open>Programs that call the public interface\<close>

text \<open>
  A program as a list of statements, each one chained expression.  An error a
  statement throws is caught and the program goes on, so that every state a program
  can reach is covered.
\<close>

datatype statement =
    AddChain arg "(meth \<times> arg) list"
  | ModifyChain arg "(meth \<times> arg) list"
  | Remove arg
  | ActivateStandards

fun exec_statement :: "statement \<Rightarrow> registry \<Rightarrow> registry" where
  "exec_statement (AddChain tag ms) reg = snd (add_chain tag ms reg)"
| "exec_statement (ModifyChain tag ms) reg = snd (modify_chain tag ms reg)"
| "exec_statement (Remove tag) reg = snd (remove_tag tag reg)"
| "exec_statement ActivateStandards reg = snd (activateStandards reg)"

fun run_statements :: "statement list \<Rightarrow> registry \<Rightarrow> registry" where
  "run_statements [] reg = reg"
| "run_statements (s # ss) reg = run_statements ss (exec_statement s reg)"

text \<open>
  A program that keeps the objects the calls return in variables and calls their
  methods later, in any order: the state holds the registry and the values obtained so
  far, and \<open>Invoke k m a\<close> calls method \<open>m\<close> of the \<open>k\<close>-th of them.
\<close>

datatype call =
    Add arg
  | Modify arg
  | RemoveCall arg
  | ActivateCall
  | Invoke nat meth arg

fun exec_call :: "call \<Rightarrow> registry \<times> builder option list \<Rightarrow> registry \<times> builder option list" where
  "exec_call (Add tag) (reg, vars) =
     (case add tag reg of Inl e \<Rightarrow> (reg, vars) | Inr b \<Rightarrow> (reg, vars @ [Some b]))"
| "exec_call (Modify tag) (reg, vars) =
     (case modify tag reg of Inl e \<Rightarrow> (reg, vars) | Inr b \<Rightarrow> (reg, vars @ [Some b]))"
| "exec_call (RemoveCall tag) (reg, vars) = (snd (remove_tag tag reg), vars)"
| "exec_call ActivateCall (reg, vars) = (snd (activateStandards reg), vars)"
| "exec_call (Invoke k m a) (reg, vars) =
     (if k < length vars
      then (case invoke_on (vars ! k) m a reg of
              (Inl e, reg') \<Rightarrow> (reg', vars)
            | (Inr r, reg') \<Rightarrow> (reg', vars @ [r]))
      else (reg, vars))"

fun run_calls :: "call list \<Rightarrow> registry \<times> builder option list \<Rightarrow> registry \<times> builder option list" where
  "run_calls [] w = w"
| "run_calls (c # cs) w = run_calls cs (exec_call c w)"

text \<open>No two entries of a sequence share a tag.\<close>

definition unique_tags :: "registry \<Rightarrow> bool" where
  "unique_tags reg =
     (distinct (map rp_tag (replacers reg)) \<and> distinct (map rv_tag (revivers reg)))"

section \<open>The JSON text format of the host\<close>

text \<open>
  \<open>JSON.stringify\<close> and \<open>JSON.parse\<close> are the host's.  This section models
  their text layer on the values above: how a string is quoted and read back, how a
  number is written and read, and the grammar of values, arrays and objects.
\<close>

abbreviation dquote :: char where
  "dquote \<equiv> CHR 0x22"

abbreviation backslash :: char where
  "backslash \<equiv> CHR 0x5C"

text \<open>\<open>QuoteJSONString\<close>: the two-character escapes, \<open>\u00XX\<close> for the other
  control characters, every other character as it is.\<close>

definition quote_char :: "char \<Rightarrow> string" where
  "quote_char ch =
     (let c = (of_char ch :: nat)
      in if c = 8 then [backslash, CHR ''b'']
         else if c = 9 then [backslash, CHR ''t'']
         else if c = 10 then [backslash, CHR ''n'']
         else if c = 12 then [backslash, CHR ''f'']
         else if c = 13 then [backslash, CHR ''r'']
         else if c = 34 then [backslash, dquote]
         else if c = 92 then [backslash, backslash]
         else if c < 32 then [backslash, CHR ''u'', CHR ''0'', CHR ''0'',
                              digit_char (c div 16), digit_char (c mod 16)]
         else [ch])"

definition quote :: "string \<Rightarrow> string" where
  "quote s = dquote # concat (map quote_char s) @ [dquote]"

text \<open>A JSON number: the decimal text of a finite number; \<open>NaN\<close> is written
  \<open>null\<close>.\<close>

fun json_number :: "jsnum \<Rightarrow> string" where
  "json_number NaN = ''null''"
| "json_number (Whole n) = decimal_text (Whole n)"
| "json_number (Frac m k) = decimal_text (Frac m k)"

definition is_json_space :: "char \<Rightarrow> bool" where
  "is_json_space ch = ((of_char ch :: nat) \<in> {9, 10, 13, 32})"

definition skip_ws :: "string \<Rightarrow> string" where
  "skip_ws s = dropWhile is_json_space s"

text \<open>
  The rest of a string literal after its opening quote: the characters up to the
  closing quote with the escapes resolved, and the text after it.  An escaped code unit
  above 255 is outside the 8-bit strings of the model.
\<close>

fun lex_string :: "string \<Rightarrow> error + string \<times> string" where
  "lex_string [] = Inl (SyntaxError ''unterminated string'')"
| "lex_string (c # cs) =
     (if c = dquote then Inr ([], cs)
      else if c = backslash then
        (case cs of
           [] \<Rightarrow> Inl (SyntaxError ''unterminated string'')
         | e # r \<Rightarrow>
             if e = CHR ''u'' then
               (case r of
                  h1 # h2 # h3 # h4 # r' \<Rightarrow>
                    if list_all (is_digit_in 16) [h1, h2, h3, h4] then
                      (let code = digits_value 16 0 [h1, h2, h3, h4]
                       in if code < 256 then
                            (case lex_string r' of
                               Inl err \<Rightarrow> Inl err
                             | Inr (str, rest) \<Rightarrow> Inr (char_of code # str, rest))
                          else Inl Unmodelled)
                    else Inl (SyntaxError ''bad unicode escape'')
                | _ \<Rightarrow> Inl (SyntaxError ''bad unicode escape''))
             else
               (case (if e = dquote then Some dquote
                      else if e = backslash then Some backslash
                      else if e = CHR ''/'' then Some CHR ''/''
                      else if e = CHR ''b'' then Some (CHR 0x08)
                      else if e = CHR ''f'' then Some (CHR 0x0C)
                      else if e = CHR ''n'' then Some (CHR 0x0A)
                      else if e = CHR ''r'' then Some (CHR 0x0D)
                      else if e = CHR ''t'' then Some (CHR 0x09)
                      else None) of
                  None \<Rightarrow> Inl (SyntaxError ''bad escaped character'')
                | Some ch \<Rightarrow>
                    (case lex_string r of
                       Inl err \<Rightarrow> Inl err
                     | Inr (str, rest) \<Rightarrow> Inr (ch # str, rest))))
      else if (of_char c :: nat) < 32 then Inl (SyntaxError ''bad control character'')
      else (case lex_string cs of
              Inl err \<Rightarrow> Inl err
            | Inr (str, rest) \<Rightarrow> Inr (c # str, rest)))"

text \<open>
  A number token at the head of the text: an optional minus sign, then \<open>0\<close> or a
  numeral without a leading zero, then an optional fraction (a point and at least one
  digit) and an optional exponent (\<open>e\<close> or \<open>E\<close>, an optional sign and at least one
  digit).  Its value is the double nearest to the decimal it denotes; a numeral that
  denotes an infinity is outside the model.
\<close>

definition lex_fraction :: "string \<Rightarrow> error + string \<times> string" where
  "lex_fraction r =
     (if r \<noteq> [] \<and> hd r = CHR ''.''
      then (if takeWhile (is_digit_in 10) (tl r) = [] then Inl (SyntaxError ''no digit after the point'')
            else Inr (takeWhile (is_digit_in 10) (tl r), dropWhile (is_digit_in 10) (tl r)))
      else Inr ([], r))"

definition lex_exponent_digits :: "bool \<Rightarrow> string \<Rightarrow> error + int \<times> string" where
  "lex_exponent_digits negative r =
     (if takeWhile (is_digit_in 10) r = [] then Inl (SyntaxError ''no digit in the exponent'')
      else Inr (signed negative (digits_value 10 0 (takeWhile (is_digit_in 10) r)),
                dropWhile (is_digit_in 10) r))"

definition lex_exponent :: "string \<Rightarrow> error + int \<times> string" where
  "lex_exponent r =
     (if r \<noteq> [] \<and> (hd r = CHR ''e'' \<or> hd r = CHR ''E'')
      then (if tl r \<noteq> [] \<and> hd (tl r) = CHR ''-'' then lex_exponent_digits True (tl (tl r))
            else if tl r \<noteq> [] \<and> hd (tl r) = CHR ''+'' then lex_exponent_digits False (tl (tl r))
            else lex_exponent_digits False (tl r))
      else Inr (0, r))"

definition lex_integer :: "string \<Rightarrow> string" where
  "lex_integer body =
     (if body \<noteq> [] \<and> hd body = CHR ''0'' then ''0'' else takeWhile (is_digit_in 10) body)"

definition lex_unsigned :: "bool \<Rightarrow> string \<Rightarrow> error + jsnum \<times> string" where
  "lex_unsigned negative body =
     (if lex_integer body = [] then Inl (SyntaxError ''no number'')
      else (case lex_fraction (drop (length (lex_integer body)) body) of
              Inl e \<Rightarrow> Inl e
            | Inr (fs, r) \<Rightarrow>
                (case lex_exponent r of
                   Inl e \<Rightarrow> Inl e
                 | Inr (x, rest) \<Rightarrow>
                     (case decimal_number negative (digits_value 10 0 (lex_integer body @ fs))
                             (x - int (length fs)) of
                        None \<Rightarrow> Inl Unmodelled
                      | Some n \<Rightarrow> Inr (n, rest)))))"

definition lex_number :: "string \<Rightarrow> error + jsnum \<times> string" where
  "lex_number s =
     (if s \<noteq> [] \<and> hd s = CHR ''-'' then lex_unsigned True (tl s) else lex_unsigned False s)"

text \<open>In an object under construction, \<open>obj[k] = v\<close>: an existing property keeps its
  place; a new array index goes among the array indices in ascending order, which come
  first; another new key goes last.\<close>

definition array_index :: "string \<Rightarrow> nat option" where
  "array_index k =
     (if k \<noteq> [] \<and> list_all (is_digit_in 10) k \<and> (hd k \<noteq> CHR ''0'' \<or> k = ''0'')
         \<and> digits_value 10 0 k < 4294967295
      then Some (digits_value 10 0 k) else None)"

fun insert_index :: "nat \<Rightarrow> string \<Rightarrow> jsval \<Rightarrow> (string \<times> jsval) list \<Rightarrow> (string \<times> jsval) list" where
  "insert_index i k v [] = [(k, v)]"
| "insert_index i k v ((k', v') # rest) =
     (case array_index k' of
        Some j \<Rightarrow> if j < i then (k', v') # insert_index i k v rest else (k, v) # (k', v') # rest
      | None \<Rightarrow> (k, v) # (k', v') # rest)"

definition obj_put :: "(string \<times> jsval) list \<Rightarrow> string \<Rightarrow> jsval \<Rightarrow> (string \<times> jsval) list" where
  "obj_put kvs k v =
     (if k \<in> fst ` set kvs then map (\<lambda>(k', v'). if k' = k then (k', v) else (k', v')) kvs
      else (case array_index k of
              Some i \<Rightarrow> insert_index i k v kvs
            | None \<Rightarrow> kvs @ [(k, v)]))"

lemma length_skip_ws [simp]: "length (skip_ws s) \<le> length s"
  by (simp add: skip_ws_def length_dropWhile_le)

lemma skip_ws_Cons_length: "skip_ws s = c # r \<Longrightarrow> length r < length s"
  using length_skip_ws [of s] by simp

lemma lex_string_shorter:
  "lex_string s = Inr (str, rest) \<Longrightarrow> length str + length rest < length s"
proof (induction s arbitrary: str rest rule: lex_string.induct)
  case 1
  then show ?case by simp
next
  case (2 c cs)
  then show ?case
    by (fastforce split: if_splits list.splits sum.splits option.splits simp: Let_def)
qed

text \<open>
  The grammar.  \<open>parse_value\<close> reads one value and returns it with the text after it;
  \<open>parse_elements\<close> reads the elements of an array after \<open>[\<close> or a comma, and
  \<open>parse_members\<close> the members of an object after \<open>{\<close> or a comma, into the object
  built so far.  Reading a value always consumes text; the tests on the lengths say so
  where the recursion needs it and never fail.
\<close>

function parse_value :: "string \<Rightarrow> error + jsval \<times> string"
  and parse_elements :: "string \<Rightarrow> error + jsval list \<times> string"
  and parse_members :: "(string \<times> jsval) list \<Rightarrow> string \<Rightarrow> error + (string \<times> jsval) list \<times> string"
where
  "parse_value s =
     (case skip_ws s of
        [] \<Rightarrow> Inl (SyntaxError ''unexpected end of JSON input'')
      | c # r \<Rightarrow>
          if c = CHR ''{'' then
            (case skip_ws r of
               [] \<Rightarrow> Inl (SyntaxError ''unexpected end of JSON input'')
             | c' # r' \<Rightarrow>
                 if c' = CHR ''}'' then Inr (VObj [], r')
                 else (case parse_members [] r of
                         Inl e \<Rightarrow> Inl e
                       | Inr (kvs, rest) \<Rightarrow> Inr (VObj kvs, rest)))
          else if c = CHR ''['' then
            (case skip_ws r of
               [] \<Rightarrow> Inl (SyntaxError ''unexpected end of JSON input'')
             | c' # r' \<Rightarrow>
                 if c' = CHR '']'' then Inr (VArr [], r')
                 else (case parse_elements r of
                         Inl e \<Rightarrow> Inl e
                       | Inr (vs, rest) \<Rightarrow> Inr (VArr vs, rest)))
          else if c = dquote then
            (case lex_string r of
               Inl e \<Rightarrow> Inl e
             | Inr (str, rest) \<Rightarrow> Inr (VStr str, rest))
          else if take 4 (c # r) = ''true'' then Inr (VBool True, drop 4 (c # r))
          else if take 5 (c # r) = ''false'' then Inr (VBool False, drop 5 (c # r))
          else if take 4 (c # r) = ''null'' then Inr (VNull, drop 4 (c # r))
          else if c = CHR ''-'' \<or> is_digit_in 10 c then
            (case lex_number (c # r) of
               Inl e \<Rightarrow> Inl e
             | Inr (n, rest) \<Rightarrow> Inr (VNum n, rest))
          else Inl (SyntaxError ''unexpected token''))"
| "parse_elements s =
     (case parse_value s of
        Inl e \<Rightarrow> Inl e
      | Inr (v, r) \<Rightarrow>
          if length r < length s then
            (case skip_ws r of
               [] \<Rightarrow> Inl (SyntaxError ''unexpected end of JSON input'')
             | c # r' \<Rightarrow>
                 if c = CHR '','' then
                   (case parse_elements r' of
                      Inl e \<Rightarrow> Inl e
                    | Inr (vs, rest) \<Rightarrow> Inr (v # vs, rest))
                 else if c = CHR '']'' then Inr ([v], r')
                 else Inl (SyntaxError ''unexpected token''))
          else Inl Unmodelled)"
| "parse_members acc s =
     (case skip_ws s of
        [] \<Rightarrow> Inl (SyntaxError ''unexpected end of JSON input'')
      | c # r \<Rightarrow>
          if c = dquote then
            (case lex_string r of
               Inl e \<Rightarrow> Inl e
             | Inr (k, r1) \<Rightarrow>
                 (case skip_ws r1 of
                    [] \<Rightarrow> Inl (SyntaxError ''unexpected end of JSON input'')
                  | c1 # r2 \<Rightarrow>
                      if c1 = CHR '':'' then
                        (case parse_value r2 of
                           Inl e \<Rightarrow> Inl e
                         | Inr (v, r3) \<Rightarrow>
                             if length r3 < length r2 then
                               (case skip_ws r3 of
                                  [] \<Rightarrow> Inl (SyntaxError ''unexpected end of JSON input'')
                                | c3 # r4 \<Rightarrow>
                                    if c3 = CHR '','' then parse_members (obj_put acc k v) r4
                                    else if c3 = CHR ''}'' then Inr (obj_put acc k v, r4)
                                    else Inl (SyntaxError ''unexpected token''))
                             else Inl Unmodelled)
                      else Inl (SyntaxError ''expected a colon'')))
          else Inl (SyntaxError ''expected a property name''))"
  by pat_completeness auto

termination
  by (relation "measure (\<lambda>x. case x of
          Inl s \<Rightarrow> 2 * length s
        | Inr (Inl s) \<Rightarrow> 2 * length s + 1
        | Inr (Inr (acc, s)) \<Rightarrow> 2 * length s + 1)")
    (auto dest!: skip_ws_Cons_length lex_string_shorter)

declare parse_value.simps [simp del] parse_elements.simps [simp del] parse_members.simps [simp del]

text \<open>\<open>JSON.parse(text)\<close> without a reviver: one value, and white space only after it.\<close>

definition json_parse :: "string \<Rightarrow> error + jsval" where
  "json_parse text =
     (case parse_value text of
        Inl e \<Rightarrow> Inl e
      | Inr (v, rest) \<Rightarrow>
          if skip_ws rest = [] then Inr v
          else Inl (SyntaxError ''unexpected non-whitespace character after JSON''))"

text \<open>A bound on the strings inside a parsed value: the length of the longest, plus its
  two quotes; \<open>0\<close> when there is none.\<close>

fun strbound :: "jsval \<Rightarrow> nat"
  and strbound_list :: "jsval list \<Rightarrow> nat"
  and strbound_props :: "(string \<times> jsval) list \<Rightarrow> nat"
where
  "strbound (VStr s) = length s + 2"
| "strbound (VArr xs) = strbound_list xs"
| "strbound (VObj kvs) = strbound_props kvs"
| "strbound VUndefined = 0"
| "strbound VNull = 0"
| "strbound (VBool b) = 0"
| "strbound (VNum n) = 0"
| "strbound (VBigInt n) = 0"
| "strbound (VRegExp s f) = 0"
| "strbound (VDate n) = 0"
| "strbound (VMap es) = 0"
| "strbound (VSet xs) = 0"
| "strbound_list [] = 0"
| "strbound_list (x # xs) = max (strbound x) (strbound_list xs)"
| "strbound_props [] = 0"
| "strbound_props ((k, v) # kvs) = max (strbound v) (strbound_props kvs)"



subsection \<open>What the grammar guarantees\<close>

lemma strbound_props_append [simp]: "strbound_props (xs @ ys) = max (strbound_props xs) (strbound_props ys)"
  by (induction xs) auto

lemma strbound_insert_index: "strbound_props (insert_index i k v kvs) = max (strbound v) (strbound_props kvs)"
  by (induction kvs) (auto split: option.splits)

lemma strbound_update: "strbound_props (map (\<lambda>(k', v'). if k' = k then (k', v) else (k', v')) kvs) \<le> max (strbound v) (strbound_props kvs)"
  by (induction kvs) auto

lemma strbound_obj_put: "strbound_props (obj_put kvs k v) \<le> max (strbound v) (strbound_props kvs)"
  using strbound_update [of k v kvs]
  by (auto simp: obj_put_def strbound_insert_index split: option.splits)

lemma lex_fraction_length: "lex_fraction r = Inr (fs, r') \<Longrightarrow> length r' \<le> length r"
  using length_dropWhile_le [of "is_digit_in 10" "tl r"]
  by (cases r) (auto simp: lex_fraction_def split: if_splits)

lemma lex_exponent_digits_length:
  "lex_exponent_digits negative r = Inr (x, r') \<Longrightarrow> length r' \<le> length r"
  by (auto simp: lex_exponent_digits_def length_dropWhile_le split: if_splits)

lemma lex_exponent_length: "lex_exponent r = Inr (x, r') \<Longrightarrow> length r' \<le> length r"
proof -
  assume a: "lex_exponent r = Inr (x, r')"
  have t: "length (tl (tl r)) \<le> length r" "length (tl r) \<le> length r" by simp_all
  from a show ?thesis
    unfolding lex_exponent_def
    by (auto split: if_splits dest!: lex_exponent_digits_length intro: le_trans [OF _ t(1)] le_trans [OF _ t(2)])
qed

lemma lex_integer_length: "lex_integer body \<noteq> [] \<Longrightarrow> length (drop (length (lex_integer body)) body) < length body"
  by (cases body) (auto simp: lex_integer_def split: if_splits)

lemma lex_unsigned_shorter: "lex_unsigned negative body = Inr (n, r) \<Longrightarrow> length r < length body"
proof -
  assume a: "lex_unsigned negative body = Inr (n, r)"
  then have ne: "lex_integer body \<noteq> []" by (auto simp: lex_unsigned_def split: if_splits)
  from a ne obtain fs r1 x where f: "lex_fraction (drop (length (lex_integer body)) body) = Inr (fs, r1)"
    and e: "lex_exponent r1 = Inr (x, r)"
    by (auto simp: lex_unsigned_def split: sum.splits option.splits)
  from lex_integer_length [OF ne] lex_fraction_length [OF f] lex_exponent_length [OF e]
  show ?thesis by linarith
qed

lemma lex_number_shorter: "lex_number s = Inr (n, r) \<Longrightarrow> length r < length s"
proof -
  assume a: "lex_number s = Inr (n, r)"
  have "length (tl s) \<le> length s" by simp
  with a show ?thesis
    by (auto simp: lex_number_def split: if_splits dest!: lex_unsigned_shorter)
qed

lemma parse_value_obj:
  "skip_ws s = CHR ''{'' # t \<Longrightarrow> parse_value s =
     (case skip_ws t of
               [] \<Rightarrow> Inl (SyntaxError ''unexpected end of JSON input'')
             | c' # r' \<Rightarrow>
                 if c' = CHR ''}'' then Inr (VObj [], r')
                 else (case parse_members [] t of
                         Inl e \<Rightarrow> Inl e
                       | Inr (kvs, rest) \<Rightarrow> Inr (VObj kvs, rest)))"
  by (subst parse_value.simps) simp

lemma parse_value_arr:
  "skip_ws s = CHR ''['' # t \<Longrightarrow> parse_value s =
     (case skip_ws t of
               [] \<Rightarrow> Inl (SyntaxError ''unexpected end of JSON input'')
             | c' # r' \<Rightarrow>
                 if c' = CHR '']'' then Inr (VArr [], r')
                 else (case parse_elements t of
                         Inl e \<Rightarrow> Inl e
                       | Inr (vs, rest) \<Rightarrow> Inr (VArr vs, rest)))"
  by (subst parse_value.simps) simp

lemma parse_value_scalar:
  "skip_ws s = c # r \<Longrightarrow> c \<noteq> CHR ''{'' \<Longrightarrow> c \<noteq> CHR ''['' \<Longrightarrow> parse_value s =
     (if c = dquote then
            (case lex_string r of
               Inl e \<Rightarrow> Inl e
             | Inr (str, rest) \<Rightarrow> Inr (VStr str, rest))
          else if take 4 (c # r) = ''true'' then Inr (VBool True, drop 4 (c # r))
          else if take 5 (c # r) = ''false'' then Inr (VBool False, drop 5 (c # r))
          else if take 4 (c # r) = ''null'' then Inr (VNull, drop 4 (c # r))
          else if c = CHR ''-'' \<or> is_digit_in 10 c then
            (case lex_number (c # r) of
               Inl e \<Rightarrow> Inl e
             | Inr (n, rest) \<Rightarrow> Inr (VNum n, rest))
          else Inl (SyntaxError ''unexpected token''))"
  by (subst parse_value.simps) simp

lemma parse_value_end:
  "skip_ws s = [] \<Longrightarrow> parse_value s = Inl (SyntaxError ''unexpected end of JSON input'')"
  by (subst parse_value.simps) simp


lemma parse_elements_Inr:
  assumes "parse_elements s = Inr (vs, r)"
  obtains v r1 c r2 where "parse_value s = Inr (v, r1)" "length r1 < length s"
    "skip_ws r1 = c # r2"
    "(c = CHR '','' \<and> (\<exists>vs'. parse_elements r2 = Inr (vs', r) \<and> vs = v # vs'))
     \<or> (c \<noteq> CHR '','' \<and> c = CHR '']'' \<and> vs = [v] \<and> r = r2)"
  using assms
  by (subst (asm) parse_elements.simps) (auto split: sum.splits list.splits if_splits)

lemma parse_members_Inr:
  assumes "parse_members acc s = Inr (kvs, r)"
  obtains t k r1 r2 v r3 c3 r4 where "skip_ws s = dquote # t" "lex_string t = Inr (k, r1)"
    "skip_ws r1 = CHR '':'' # r2" "parse_value r2 = Inr (v, r3)" "length r3 < length r2"
    "skip_ws r3 = c3 # r4"
    "(c3 = CHR '','' \<and> parse_members (obj_put acc k v) r4 = Inr (kvs, r))
     \<or> (c3 \<noteq> CHR '','' \<and> c3 = CHR ''}'' \<and> kvs = obj_put acc k v \<and> r = r4)"
  using assms
  by (subst (asm) parse_members.simps) (auto split: sum.splits list.splits if_splits)


lemma take_literal_length: "take n xs = ys \<Longrightarrow> length ys = n \<Longrightarrow> n \<le> length xs"
  by (metis length_take min.cobounded1)

lemma parse_value_scalar_bound:
  assumes sk: "skip_ws s = c # t" and c: "c \<noteq> CHR ''{''" "c \<noteq> CHR ''[''"
    and pv: "parse_value s = Inr (v, r)"
  shows "strbound v + length r \<le> length s \<and> length r < length s"
proof -
  have lt: "length t < length s" using skip_ws_Cons_length [OF sk] .
  define xs where "xs = c # t"
  have le: "length xs \<le> length s" using lt by (simp add: xs_def)
  note pv' = pv [unfolded parse_value_scalar [OF sk c], folded xs_def]
  show ?thesis
  proof (cases "c = dquote")
    case True
    then obtain str where "lex_string t = Inr (str, r)" "v = VStr str"
      using pv' by (auto split: sum.splits)
    then show ?thesis using lex_string_shorter [of t str r] lt by simp
  next
    case nq: False
    show ?thesis
    proof (cases "take 4 xs = ''true''")
      case True
      then have "v = VBool True" "r = drop 4 xs" using pv' nq by auto
      then show ?thesis using take_literal_length [OF True] le by auto
    next
      case nt: False
      show ?thesis
      proof (cases "take 5 xs = ''false''")
        case True
        then have "v = VBool False" "r = drop 5 xs" using pv' nq nt by auto
        then show ?thesis using take_literal_length [OF True] le by auto
      next
        case nf: False
        show ?thesis
        proof (cases "take 4 xs = ''null''")
          case True
          then have "v = VNull" "r = drop 4 xs" using pv' nq nt nf by auto
          then show ?thesis using take_literal_length [OF True] le by auto
        next
          case nn: False
          then obtain n where "lex_number xs = Inr (n, r)" "v = VNum n"
            using pv' nq nt nf by (auto split: sum.splits if_splits)
          then show ?thesis using lex_number_shorter [of xs n r] le by simp
        qed
      qed
    qed
  qed
qed


lemma parse_bound:
  "\<forall>v r. parse_value s = Inr (v, r) \<longrightarrow> strbound v + length r \<le> length s \<and> length r < length s"
  "\<forall>vs r. parse_elements s2 = Inr (vs, r) \<longrightarrow> strbound_list vs + length r \<le> length s2"
  "\<forall>kvs r. parse_members acc s3 = Inr (kvs, r) \<longrightarrow>
      length r \<le> length s3 \<and> strbound_props kvs \<le> max (strbound_props acc) (length s3 - length r)"
proof (induction s and s2 and acc s3 rule: parse_value_parse_elements_parse_members.induct)
  case (1 s)
  show ?case
  proof (intro allI impI)
    fix v r assume pv: "parse_value s = Inr (v, r)"
    obtain c t where sk: "skip_ws s = c # t"
      using pv parse_value_end [of s] by (cases "skip_ws s") auto
    have lt: "length t < length s" using skip_ws_Cons_length [OF sk] .
    consider (obj) "c = CHR ''{''" | (arr) "c \<noteq> CHR ''{''" "c = CHR ''[''"
      | (other) "c \<noteq> CHR ''{''" "c \<noteq> CHR ''[''" by blast
    then show "strbound v + length r \<le> length s \<and> length r < length s"
    proof cases
      case obj
      note pv' = pv [unfolded parse_value_obj [OF sk [unfolded obj]]]
      obtain c' t' where sk': "skip_ws t = c' # t'"
        using pv' by (cases "skip_ws t") auto
      have lt': "length t' < length t" using skip_ws_Cons_length [OF sk'] .
      show ?thesis
      proof (cases "c' = CHR ''}''")
        case True
        then show ?thesis using pv' sk' lt lt' by auto
      next
        case False
        then obtain kvs where pm: "parse_members [] t = Inr (kvs, r)" and v: "v = VObj kvs"
          using pv' sk' by (auto split: sum.splits)
        from "1.IH"(1) [OF sk obj sk' False] pm
        have "length r \<le> length t \<and> strbound_props kvs \<le> max (strbound_props []) (length t - length r)"
          by blast
        then show ?thesis using v lt by auto
      qed
    next
      case arr
      note pv' = pv [unfolded parse_value_arr [OF sk [unfolded arr(2)]]]
      obtain c' t' where sk': "skip_ws t = c' # t'"
        using pv' by (cases "skip_ws t") auto
      have lt': "length t' < length t" using skip_ws_Cons_length [OF sk'] .
      show ?thesis
      proof (cases "c' = CHR '']''")
        case True
        then show ?thesis using pv' sk' lt lt' by auto
      next
        case False
        then obtain vs where pm: "parse_elements t = Inr (vs, r)" and v: "v = VArr vs"
          using pv' sk' by (auto split: sum.splits)
        from "1.IH"(2) [OF sk arr(1) arr(2) sk' False] pm
        have "strbound_list vs + length r \<le> length t" by blast
        then show ?thesis using v lt by auto
      qed
    next
      case other
      then show ?thesis using parse_value_scalar_bound [OF sk other pv] by simp
    qed
  qed
next
  case (2 s)
  show ?case
  proof (intro allI impI)
    fix vs r assume pe: "parse_elements s = Inr (vs, r)"
    from pe obtain v r1 c r2 where pv: "parse_value s = Inr (v, r1)" and l: "length r1 < length s"
      and sk: "skip_ws r1 = c # r2"
      and alt: "(c = CHR '','' \<and> (\<exists>vs'. parse_elements r2 = Inr (vs', r) \<and> vs = v # vs'))
         \<or> (c \<noteq> CHR '','' \<and> c = CHR '']'' \<and> vs = [v] \<and> r = r2)"
      by (rule parse_elements_Inr)
    from 2(1) pv have b1: "strbound v + length r1 \<le> length s" by blast
    have lt: "length r2 < length r1" using skip_ws_Cons_length [OF sk] .
    from alt show "strbound_list vs + length r \<le> length s"
    proof
      assume a: "c = CHR '','' \<and> (\<exists>vs'. parse_elements r2 = Inr (vs', r) \<and> vs = v # vs')"
      then obtain vs' where pe': "parse_elements r2 = Inr (vs', r)" and vs: "vs = v # vs'" by blast
      from 2(2) [OF pv refl l sk] a pe'
      have "strbound_list vs' + length r \<le> length r2" by blast
      then show ?thesis using vs b1 lt by auto
    next
      assume "c \<noteq> CHR '','' \<and> c = CHR '']'' \<and> vs = [v] \<and> r = r2"
      then show ?thesis using b1 lt by auto
    qed
  qed
next
  case (3 acc s)
  show ?case
  proof (intro allI impI)
    fix kvs r assume pm: "parse_members acc s = Inr (kvs, r)"
    from pm obtain t k r1 r2 v r3 c3 r4 where sk: "skip_ws s = dquote # t"
      and ls: "lex_string t = Inr (k, r1)"
      and sk1: "skip_ws r1 = CHR '':'' # r2" and pv: "parse_value r2 = Inr (v, r3)"
      and l: "length r3 < length r2" and sk3: "skip_ws r3 = c3 # r4"
      and alt: "(c3 = CHR '','' \<and> parse_members (obj_put acc k v) r4 = Inr (kvs, r))
         \<or> (c3 \<noteq> CHR '','' \<and> c3 = CHR ''}'' \<and> kvs = obj_put acc k v \<and> r = r4)"
      by (rule parse_members_Inr)
    from 3(1) [OF sk refl ls refl sk1 refl] pv
    have b: "strbound v + length r3 \<le> length r2" by blast
    have l1: "length t < length s" using skip_ws_Cons_length [OF sk] .
    have l2: "length r1 < length t" using lex_string_shorter [OF ls] by simp
    have l3: "length r2 < length r1" using skip_ws_Cons_length [OF sk1] .
    have l4: "length r4 < length r3" using skip_ws_Cons_length [OF sk3] .
    have op: "strbound_props (obj_put acc k v) \<le> max (strbound v) (strbound_props acc)"
      by (rule strbound_obj_put)
    from alt show "length r \<le> length s \<and> strbound_props kvs \<le> max (strbound_props acc) (length s - length r)"
    proof
      assume a: "c3 = CHR '','' \<and> parse_members (obj_put acc k v) r4 = Inr (kvs, r)"
      from 3(2) [OF sk refl ls refl sk1 refl pv refl l sk3] a
      have "length r \<le> length r4 \<and> strbound_props kvs \<le> max (strbound_props (obj_put acc k v)) (length r4 - length r)"
        by blast
      then show ?thesis using op b l l1 l2 l3 l4 by auto
    next
      assume "c3 \<noteq> CHR '','' \<and> c3 = CHR ''}'' \<and> kvs = obj_put acc k v \<and> r = r4"
      then show ?thesis using op b l l1 l2 l3 l4 by auto
    qed
  qed
qed

lemma json_parse_strbound: "json_parse text = Inr v \<Longrightarrow> strbound v \<le> length text"
  using parse_bound(1) [of "text"]
  by (auto simp: json_parse_def split: sum.splits if_splits)

section \<open>Deserialising\<close>

text \<open>\<open>SameValueZero\<close>, by which a Map compares keys and a Set its members: equal
  primitives are the same, and an object is the same as itself only.  The objects of
  a value tree are all distinct.\<close>

fun is_primitive :: "jsval \<Rightarrow> bool" where
  "is_primitive VUndefined = True"
| "is_primitive VNull = True"
| "is_primitive (VBool b) = True"
| "is_primitive (VNum n) = True"
| "is_primitive (VBigInt n) = True"
| "is_primitive (VStr s) = True"
| "is_primitive v = False"

definition same_value_zero :: "jsval \<Rightarrow> jsval \<Rightarrow> bool" where
  "same_value_zero a b = (is_primitive a \<and> a = b)"

text \<open>\<open>map.set(k, v)\<close> and \<open>set.add(x)\<close> on the lists of entries and members.\<close>

fun map_put :: "(jsval \<times> jsval) list \<Rightarrow> jsval \<Rightarrow> jsval \<Rightarrow> (jsval \<times> jsval) list" where
  "map_put [] k v = [(k, v)]"
| "map_put ((k', v') # es) k v =
     (if same_value_zero k' k then (k', v) # es else (k', v') # map_put es k v)"

fun set_add :: "jsval list \<Rightarrow> jsval \<Rightarrow> jsval list" where
  "set_add [] x = [x]"
| "set_add (y # ys) x = (if same_value_zero y x then y # ys else y # set_add ys x)"

text \<open>What iterating a value yields: the elements of an array, the characters of a
  string, the entries of a Map as fresh two-element arrays, the members of a Set.
  Nothing else here is iterable.\<close>

fun iterate :: "jsval \<Rightarrow> error + jsval list" where
  "iterate (VArr xs) = Inr xs"
| "iterate (VStr s) = Inr (map (\<lambda>ch. VStr [ch]) s)"
| "iterate (VMap es) = Inr (map (\<lambda>(k, v). VArr [k, v]) es)"
| "iterate (VSet xs) = Inr xs"
| "iterate v = Inl (TypeError ''object is not iterable'')"

text \<open>\<open>item[0]\<close> and \<open>item[1]\<close> of an item the Map constructor is given; an item that
  is not an object is a TypeError.\<close>

definition element_or_undefined :: "jsval list \<Rightarrow> nat \<Rightarrow> jsval" where
  "element_or_undefined xs i = (if i < length xs then xs ! i else VUndefined)"

definition property_or_undefined :: "(string \<times> jsval) list \<Rightarrow> string \<Rightarrow> jsval" where
  "property_or_undefined kvs k = (case map_of kvs k of Some v \<Rightarrow> v | None \<Rightarrow> VUndefined)"

fun entry_of :: "jsval \<Rightarrow> error + jsval \<times> jsval" where
  "entry_of (VArr xs) = Inr (element_or_undefined xs 0, element_or_undefined xs 1)"
| "entry_of (VObj kvs) = Inr (property_or_undefined kvs ''0'', property_or_undefined kvs ''1'')"
| "entry_of (VRegExp s f) = Inr (VUndefined, VUndefined)"
| "entry_of (VDate n) = Inr (VUndefined, VUndefined)"
| "entry_of (VMap es) = Inr (VUndefined, VUndefined)"
| "entry_of (VSet xs) = Inr (VUndefined, VUndefined)"
| "entry_of v = Inl (TypeError ''iterator value is not an entry object'')"

fun add_entries :: "(jsval \<times> jsval) list \<Rightarrow> jsval list \<Rightarrow> error + (jsval \<times> jsval) list" where
  "add_entries es [] = Inr es"
| "add_entries es (item # items) =
     (case entry_of item of
        Inl e \<Rightarrow> Inl e
      | Inr (k, v) \<Rightarrow> add_entries (map_put es k v) items)"

text \<open>\<open>new Map(iterable)\<close> and \<open>new Set(iterable)\<close>; \<open>undefined\<close> and \<open>null\<close> give
  an empty collection.\<close>

definition new_map :: "jsval \<Rightarrow> error + jsval" where
  "new_map iterable =
     (if iterable = VUndefined \<or> iterable = VNull then Inr (VMap [])
      else (case iterate iterable of
              Inl e \<Rightarrow> Inl e
            | Inr items \<Rightarrow> map_sum id VMap (add_entries [] items)))"

definition new_set :: "jsval \<Rightarrow> error + jsval" where
  "new_set iterable =
     (if iterable = VUndefined \<or> iterable = VNull then Inr (VSet [])
      else (case iterate iterable of
              Inl e \<Rightarrow> Inl e
            | Inr items \<Rightarrow> Inr (VSet (foldl set_add [] items))))"

text \<open>The length, plus two, of the string a reviver call is given; \<open>0\<close> for other
  values.\<close>

fun string_bound :: "jsval \<Rightarrow> nat" where
  "string_bound (VStr s) = length s + 2"
| "string_bound v = 0"

text \<open>A count of the nodes of a value.  A Map weighs more than the array of its
  entries and a Set more than the array of its members.\<close>

function weight :: "jsval \<Rightarrow> nat"
  and weight_list :: "jsval list \<Rightarrow> nat"
  and weight_props :: "(string \<times> jsval) list \<Rightarrow> nat"
  and weight_entries :: "(jsval \<times> jsval) list \<Rightarrow> nat"
where
  "weight (VArr xs) = 1 + weight_list xs"
| "weight (VObj kvs) = 1 + weight_props kvs"
| "weight (VMap es) = 2 + weight_entries es"
| "weight (VSet xs) = 2 + weight_list xs"
| "weight VUndefined = 1"
| "weight VNull = 1"
| "weight (VBool b) = 1"
| "weight (VNum n) = 1"
| "weight (VBigInt n) = 1"
| "weight (VStr s) = 1"
| "weight (VRegExp s f) = 1"
| "weight (VDate n) = 1"
| "weight_list [] = 0"
| "weight_list (x # xs) = 1 + weight x + weight_list xs"
| "weight_props [] = 0"
| "weight_props ((k, v) # kvs) = 1 + weight v + weight_props kvs"
| "weight_entries [] = 0"
| "weight_entries ((k, v) # es) = 5 + weight k + weight v + weight_entries es"
  by pat_completeness auto
termination
  by (relation "measure (case_sum (case_sum size (size_list size))
        (case_sum (size_list (size_prod (\<lambda>k. 0) size)) (size_list (size_prod size size))))") auto

lemma string_bound_le_strbound: "string_bound v \<le> strbound v"
  by (cases v) auto

text \<open>
  \<open>parse\<close>, lines 29-31, is \<open>JSON.parse(text, TJSON.reviver)\<close>: the host parses the
  text and then walks the result bottom-up (\<open>internalize\<close>), replacing every element
  and property value, and last the root, by what the reviver returns for it (the
  reviver never returns \<open>undefined\<close> here, so nothing is deleted).

  \<open>reviver\<close>, lines 199-214, is the loop over \<open>TJSON.revivers\<close>; \<open>reviver_from\<close> is
  the loop from some index on.  \<open>call_reviver\<close> is the call \<open>reviver.exec(...)\<close> on
  the rest of the string; a Map or Set reviver re-enters \<open>parse\<close>, and a string has
  neither \<open>entries\<close> nor \<open>values\<close>.
\<close>

function parse :: "registry \<Rightarrow> string \<Rightarrow> error + jsval"
  and internalize :: "registry \<Rightarrow> string \<Rightarrow> jsval \<Rightarrow> error + jsval"
  and internalize_elements :: "registry \<Rightarrow> nat \<Rightarrow> jsval list \<Rightarrow> error + jsval list"
  and internalize_props :: "registry \<Rightarrow> (string \<times> jsval) list \<Rightarrow> error + (string \<times> jsval) list"
  and reviver :: "registry \<Rightarrow> string \<Rightarrow> jsval \<Rightarrow> error + jsval"
  and reviver_from :: "registry \<Rightarrow> reviver_entry list \<Rightarrow> jsval \<Rightarrow> error + jsval"
  and call_reviver :: "registry \<Rightarrow> fn \<Rightarrow> string \<Rightarrow> error + jsval"
where
  "parse reg text =
     (case json_parse text of
        Inl e \<Rightarrow> Inl e
      | Inr v \<Rightarrow> internalize reg [] v)"
| "internalize reg name val =
     (case val of
        VArr xs \<Rightarrow>
          (case internalize_elements reg 0 xs of
             Inl e \<Rightarrow> Inl e
           | Inr ys \<Rightarrow> reviver reg name (VArr ys))
      | VObj kvs \<Rightarrow>
          (case internalize_props reg kvs of
             Inl e \<Rightarrow> Inl e
           | Inr kvs' \<Rightarrow> reviver reg name (VObj kvs'))
      | _ \<Rightarrow> reviver reg name val)"
| "internalize_elements reg i [] = Inr []"
| "internalize_elements reg i (x # xs) =
     (case internalize reg (int_to_string 10 (int i)) x of
        Inl e \<Rightarrow> Inl e
      | Inr y \<Rightarrow>
          (case internalize_elements reg (Suc i) xs of
             Inl e \<Rightarrow> Inl e
           | Inr ys \<Rightarrow> Inr (y # ys)))"
| "internalize_props reg [] = Inr []"
| "internalize_props reg ((k, v) # kvs) =
     (case internalize reg k v of
        Inl e \<Rightarrow> Inl e
      | Inr v' \<Rightarrow>
          (case internalize_props reg kvs of
             Inl e \<Rightarrow> Inl e
           | Inr kvs' \<Rightarrow> Inr ((k, v') # kvs')))"
| "reviver reg name val = reviver_from reg (revivers reg) val"
| "reviver_from reg [] val = Inr val"
| "reviver_from reg (rv # rest) val =
     (case val of
        VStr s \<Rightarrow>
          if take (length (rv_tag rv)) s = rv_tag rv then
            (case call_reviver reg (rv_exec rv) (drop (length (rv_tag rv)) s) of
               Inl e \<Rightarrow> Inl e
             | Inr success \<Rightarrow>
                 if truthy success then Inr success
                 else reviver_from reg rest val)
          else reviver_from reg rest val
      | _ \<Rightarrow> reviver_from reg rest val)"
| "call_reviver reg f payload =
     (case f of
        Pure g \<Rightarrow> g (VStr payload)
      | MapReviver \<Rightarrow>
          (case parse reg payload of
             Inl e \<Rightarrow> Inl e
           | Inr v \<Rightarrow> new_map v)
      | SetReviver \<Rightarrow>
          (case parse reg payload of
             Inl e \<Rightarrow> Inl e
           | Inr v \<Rightarrow> new_set v)
      | MapReplacer \<Rightarrow> Inl (TypeError ''v.entries is not a function'')
      | SetReplacer \<Rightarrow> Inl (TypeError ''v.values is not a function''))"
  by pat_completeness auto
termination
  by (relation "inv_image (less_than <*lex*> less_than <*lex*> less_than)
     (\<lambda>x. case x of
        Inl (Inl (reg, text)) \<Rightarrow> (length text + 1, 0::nat, 0::nat)
      | Inl (Inr (Inl (reg, name, v))) \<Rightarrow> (strbound v, 3, weight v)
      | Inl (Inr (Inr (reg, i, xs))) \<Rightarrow> (strbound_list xs, 3, weight_list xs)
      | Inr (Inl (Inl (reg, kvs))) \<Rightarrow> (strbound_props kvs, 3, weight_props kvs)
      | Inr (Inl (Inr (reg, name, v))) \<Rightarrow> (string_bound v, 2, 0)
      | Inr (Inr (Inl (reg, es, v))) \<Rightarrow> (string_bound v, 1, length es)
      | Inr (Inr (Inr (reg, f, payload))) \<Rightarrow> (length payload + 2, 0, 0))")
    (auto dest!: json_parse_strbound simp: less_Suc_eq_le)

declare parse.simps [simp del] internalize.simps [simp del] reviver.simps [simp del]
  reviver_from.simps [simp del] call_reviver.simps [simp del]
  internalize_elements.simps [simp del] internalize_props.simps [simp del]

section \<open>Serialising\<close>

text \<open>
  \<open>Date.prototype.toJSON\<close>: the ISO text of a valid date, \<open>null\<close> for an invalid one
  (the time value of a Date is an integer or \<open>NaN\<close>; of a fraction, which no Date
  holds, the integer part is taken).
  The calendar date of a day number is computed from the 400-year cycle of 146097 days
  that starts on 1 March of year 0: the cycle and the day in it, the year in the cycle,
  the day in that year, the month counted from March.
\<close>

function pad_left :: "nat \<Rightarrow> string \<Rightarrow> string" where
  "pad_left width ds = (if length ds < width then pad_left width (CHR ''0'' # ds) else ds)"
  by pat_completeness auto
termination
  by (relation "measure (\<lambda>(width, ds). width - length ds)") auto

declare pad_left.simps [simp del]

definition civil_of_month :: "int \<Rightarrow> int \<Rightarrow> int \<Rightarrow> int \<times> int \<times> int" where
  "civil_of_month y doy mp =
     (if mp < 10 then (y, mp + 3, doy - (153 * mp + 2) div 5 + 1)
      else (y + 1, mp - 9, doy - (153 * mp + 2) div 5 + 1))"

definition civil_of_day_of_year :: "int \<Rightarrow> int \<Rightarrow> int \<times> int \<times> int" where
  "civil_of_day_of_year y doy = civil_of_month y doy ((5 * doy + 2) div 153)"

definition civil_of_year_of_era :: "int \<Rightarrow> int \<Rightarrow> int \<Rightarrow> int \<times> int \<times> int" where
  "civil_of_year_of_era era doe yoe =
     civil_of_day_of_year (yoe + era * 400) (doe - (365 * yoe + yoe div 4 - yoe div 100))"

definition civil_of_day_of_era :: "int \<Rightarrow> int \<Rightarrow> int \<times> int \<times> int" where
  "civil_of_day_of_era era doe =
     civil_of_year_of_era era doe ((doe - doe div 1460 + doe div 36524 - doe div 146096) div 365)"

definition civil_from_days :: "int \<Rightarrow> int \<times> int \<times> int" where
  "civil_from_days days =
     civil_of_day_of_era ((days + 719468) div 146097) ((days + 719468) mod 146097)"

definition iso_year :: "int \<Rightarrow> string" where
  "iso_year y =
     (if 0 \<le> y \<and> y \<le> 9999 then pad_left 4 (digits_in 10 (nat y))
      else (if y < 0 then CHR ''-'' else CHR ''+'') # pad_left 6 (digits_in 10 (nat \<bar>y\<bar>)))"

fun iso_text :: "int \<times> int \<times> int \<Rightarrow> int \<Rightarrow> string" where
  "iso_text (y, m, d) rest =
     iso_year y @ ''-'' @ pad_left 2 (digits_in 10 (nat m)) @ ''-'' @ pad_left 2 (digits_in 10 (nat d))
       @ ''T'' @ pad_left 2 (digits_in 10 (nat (rest div 3600000)))
       @ '':'' @ pad_left 2 (digits_in 10 (nat (rest mod 3600000 div 60000)))
       @ '':'' @ pad_left 2 (digits_in 10 (nat (rest mod 60000 div 1000)))
       @ ''.'' @ pad_left 3 (digits_in 10 (nat (rest mod 1000))) @ ''Z''"

definition to_iso_string :: "int \<Rightarrow> string" where
  "to_iso_string ms = iso_text (civil_from_days (ms div 86400000)) (ms mod 86400000)"

fun date_to_json :: "jsnum \<Rightarrow> jsval" where
  "date_to_json NaN = VNull"
| "date_to_json (Whole ms) = VStr (to_iso_string ms)"
| "date_to_json (Frac m k) = VStr (to_iso_string (sgn m * (\<bar>m\<bar> div 2 ^ k)))"

fun join_commas :: "string list \<Rightarrow> string" where
  "join_commas [] = []"
| "join_commas [t] = t"
| "join_commas (t # u # ts) = t @ '','' @ join_commas (u # ts)"

text \<open>
  \<open>[...v.entries()]\<close> and \<open>[...v.values()]\<close>.  A Map yields its entries as fresh
  two-element arrays, or its values; a Set and an array yield their members and
  elements as values.  The entries of a Set or of an array (which hold arrays again)
  are left out of the model.  Other values have neither method.
\<close>

fun entries_array :: "jsval \<Rightarrow> error + jsval" where
  "entries_array (VMap es) = Inr (VArr (map (\<lambda>(k, v). VArr [k, v]) es))"
| "entries_array (VArr xs) = Inl Unmodelled"
| "entries_array (VSet xs) = Inl Unmodelled"
| "entries_array v = Inl (TypeError ''v.entries is not a function'')"

fun values_array :: "jsval \<Rightarrow> error + jsval" where
  "values_array (VSet xs) = Inr (VArr xs)"
| "values_array (VMap es) = Inr (VArr (map snd es))"
| "values_array (VArr xs) = Inr (VArr xs)"
| "values_array v = Inl (TypeError ''v.values is not a function'')"

text \<open>What \<open>JSON.stringify\<close> hands back, as a value: the text, or \<open>undefined\<close>.\<close>

definition text_value :: "string option \<Rightarrow> jsval" where
  "text_value t = (case t of None \<Rightarrow> VUndefined | Some s \<Rightarrow> VStr s)"

lemma weight_entries_array: "entries_array x = Inr y \<Longrightarrow> weight y \<le> weight x"
proof (cases x)
  case (VMap es)
  assume "entries_array x = Inr y"
  then have y: "y = VArr (map (\<lambda>(k, v). VArr [k, v]) es)" using VMap by simp
  have "weight_list (map (\<lambda>(k, v). VArr [k, v]) es) \<le> weight_entries es"
    by (induction es) auto
  then show ?thesis using VMap y by simp
qed auto

lemma weight_values_array: "values_array x = Inr y \<Longrightarrow> weight y \<le> weight x"
proof (cases x)
  case (VMap es)
  assume "values_array x = Inr y"
  then have y: "y = VArr (map snd es)" using VMap by simp
  have "weight_list (map snd es) \<le> weight_entries es"
    by (induction es) auto
  then show ?thesis using VMap y by simp
qed auto

lemma weight_toJSON: "weight (case held of VDate n \<Rightarrow> date_to_json n | _ \<Rightarrow> held) = weight held"
proof (cases held)
  case (VDate n)
  then show ?thesis by (cases n) auto
qed auto

text \<open>The measure of the recursion below, on the arguments of its nine functions: twice
  the weight of the value at hand first, then the place of the function in the call
  order, then the number of replacers still to try.\<close>

fun serialising_measure where
  "serialising_measure (Inl (Inl (Inl (reg, v)))) = (2 * weight v, 9::nat, 0::nat)"
| "serialising_measure (Inl (Inl (Inr (reg, key, v)))) = (2 * weight v, 8, 0)"
| "serialising_measure (Inl (Inr (Inl (reg, i, xs)))) = (2 * weight_list xs + 1, 8, 0)"
| "serialising_measure (Inl (Inr (Inr (reg, kvs)))) = (2 * weight_props kvs + 1, 8, 0)"
| "serialising_measure (Inr (Inl (Inl (reg, name, v)))) = (2 * weight v, 3, 0)"
| "serialising_measure (Inr (Inl (Inr (reg, xs)))) = (2 * weight_list xs + 1, 2, 0)"
| "serialising_measure (Inr (Inr (Inl (reg, kvs)))) = (2 * weight_props kvs + 1, 2, 0)"
| "serialising_measure (Inr (Inr (Inr (Inl (reg, rps, v))))) = (2 * weight v + 1, 1, length rps)"
| "serialising_measure (Inr (Inr (Inr (Inr (reg, f, v))))) = (2 * weight v + 1, 0, 0)"

text \<open>
  \<open>stringify\<close>, lines 15-17, is \<open>JSON.stringify(value, TJSON.replacer)\<close> (the model
  leaves the indentation argument out): the host serialises the property \<open>""\<close> of a
  wrapper object that holds the value.  Every function returns, beside the text, what
  has become of the value it was given, since the replacer assigns to the properties
  of the objects it visits.

  \<open>serialize_property\<close> is the host's \<open>SerializeJSONProperty\<close>: a Date is replaced by
  its \<open>toJSON()\<close> text (the Date itself stays where it was), the replacer is called on
  the value, and the result is written by kind; its elements or properties are
  serialised in turn, after the replacer has run on the object that holds them.  A
  property whose text is \<open>undefined\<close> is left out of an object and written \<open>null\<close> in
  an array.  The replacer returns the object it was given, so its result weighs no more
  than its argument; the test that says so is there for the recursion and never fails.

  \<open>replacer\<close>, lines 171-191: \<open>for (key in val)\<close> visits the elements of an array
  and the properties of an object and nothing in other values; \<open>replace_value\<close> is the
  inner loop over the replacers from some index on, for the value \<open>val[key]\<close>, and
  returns what \<open>val[key]\<close> is after it.  \<open>call_replacer\<close> is a call of a registered
  function during serialisation.
\<close>

function stringify :: "registry \<Rightarrow> jsval \<Rightarrow> error + string option \<times> jsval"
  and serialize_property :: "registry \<Rightarrow> string \<Rightarrow> jsval \<Rightarrow> error + string option \<times> jsval"
  and serialize_elements :: "registry \<Rightarrow> nat \<Rightarrow> jsval list \<Rightarrow> error + string list \<times> jsval list"
  and serialize_props :: "registry \<Rightarrow> (string \<times> jsval) list \<Rightarrow> error + string list \<times> (string \<times> jsval) list"
  and replacer :: "registry \<Rightarrow> string \<Rightarrow> jsval \<Rightarrow> error + jsval"
  and replace_elements :: "registry \<Rightarrow> jsval list \<Rightarrow> error + jsval list"
  and replace_props :: "registry \<Rightarrow> (string \<times> jsval) list \<Rightarrow> error + (string \<times> jsval) list"
  and replace_value :: "registry \<Rightarrow> replacer_entry list \<Rightarrow> jsval \<Rightarrow> error + jsval"
  and call_replacer :: "registry \<Rightarrow> fn \<Rightarrow> jsval \<Rightarrow> error + jsval"
where
  "stringify reg value = serialize_property reg [] value"
| "serialize_property reg key held =
     (let value = (case held of VDate n \<Rightarrow> date_to_json n | _ \<Rightarrow> held)
      in case replacer reg key value of
           Inl e \<Rightarrow> Inl e
         | Inr value' \<Rightarrow>
             if weight value' \<le> weight value then
               (case value' of
                  VUndefined \<Rightarrow> Inr (None, held)
                | VNull \<Rightarrow> Inr (Some ''null'', held)
                | VBool b \<Rightarrow> Inr (Some (if b then ''true'' else ''false''), held)
                | VNum n \<Rightarrow> Inr (Some (json_number n), held)
                | VBigInt n \<Rightarrow> Inl (TypeError ''Do not know how to serialize a BigInt'')
                | VStr s \<Rightarrow> Inr (Some (quote s), held)
                | VArr xs \<Rightarrow>
                    (case serialize_elements reg 0 xs of
                       Inl e \<Rightarrow> Inl e
                     | Inr (ts, xs') \<Rightarrow> Inr (Some (''['' @ join_commas ts @ '']''), VArr xs'))
                | VObj kvs \<Rightarrow>
                    (case serialize_props reg kvs of
                       Inl e \<Rightarrow> Inl e
                     | Inr (ts, kvs') \<Rightarrow> Inr (Some (''{'' @ join_commas ts @ ''}''), VObj kvs'))
                | _ \<Rightarrow> Inr (Some ''{}'', held))
             else Inl Unmodelled)"
| "serialize_elements reg i [] = Inr ([], [])"
| "serialize_elements reg i (x # xs) =
     (case serialize_property reg (int_to_string 10 (int i)) x of
        Inl e \<Rightarrow> Inl e
      | Inr (t, x') \<Rightarrow>
          (case serialize_elements reg (Suc i) xs of
             Inl e \<Rightarrow> Inl e
           | Inr (ts, xs') \<Rightarrow>
               Inr ((case t of None \<Rightarrow> ''null'' | Some s \<Rightarrow> s) # ts, x' # xs')))"
| "serialize_props reg [] = Inr ([], [])"
| "serialize_props reg ((k, v) # kvs) =
     (case serialize_property reg k v of
        Inl e \<Rightarrow> Inl e
      | Inr (t, v') \<Rightarrow>
          (case serialize_props reg kvs of
             Inl e \<Rightarrow> Inl e
           | Inr (ts, kvs') \<Rightarrow>
               Inr ((case t of None \<Rightarrow> ts | Some s \<Rightarrow> (quote k @ '':'' @ s) # ts),
                    (k, v') # kvs')))"
| "replacer reg name val =
     (case val of
        VArr xs \<Rightarrow> map_sum id VArr (replace_elements reg xs)
      | VObj kvs \<Rightarrow> map_sum id VObj (replace_props reg kvs)
      | _ \<Rightarrow> Inr val)"
| "replace_elements reg [] = Inr []"
| "replace_elements reg (x # xs) =
     (case replace_value reg (replacers reg) x of
        Inl e \<Rightarrow> Inl e
      | Inr x' \<Rightarrow>
          (case replace_elements reg xs of
             Inl e \<Rightarrow> Inl e
           | Inr xs' \<Rightarrow> Inr (x' # xs')))"
| "replace_props reg [] = Inr []"
| "replace_props reg ((k, v) # kvs) =
     (case replace_value reg (replacers reg) v of
        Inl e \<Rightarrow> Inl e
      | Inr v' \<Rightarrow>
          (case replace_props reg kvs of
             Inl e \<Rightarrow> Inl e
           | Inr kvs' \<Rightarrow> Inr ((k, v') # kvs')))"
| "replace_value reg [] held = Inr held"
| "replace_value reg (rp # rest) held =
     (case call_replacer reg (rp_check rp) held of
        Inl e \<Rightarrow> Inl e
      | Inr check \<Rightarrow>
          if truthy check then
            (case call_replacer reg (rp_exec rp) held of
               Inl e \<Rightarrow> Inl e
             | Inr success \<Rightarrow>
                 if truthy success then
                   (case to_string success of
                      Inl e \<Rightarrow> Inl e
                    | Inr s \<Rightarrow> Inr (VStr (rp_tag rp @ s)))
                 else replace_value reg rest held)
          else replace_value reg rest held)"
| "call_replacer reg f v =
     (case f of
        Pure g \<Rightarrow> g v
      | MapReplacer \<Rightarrow>
          (case entries_array v of
             Inl e \<Rightarrow> Inl e
           | Inr entries \<Rightarrow> map_sum id (text_value \<circ> fst) (stringify reg entries))
      | SetReplacer \<Rightarrow>
          (case values_array v of
             Inl e \<Rightarrow> Inl e
           | Inr members \<Rightarrow> map_sum id (text_value \<circ> fst) (stringify reg members))
      | MapReviver \<Rightarrow>
          (case to_string v of
             Inl e \<Rightarrow> Inl e
           | Inr s \<Rightarrow> (case parse reg s of Inl e \<Rightarrow> Inl e | Inr parsed \<Rightarrow> new_map parsed))
      | SetReviver \<Rightarrow>
          (case to_string v of
             Inl e \<Rightarrow> Inl e
           | Inr s \<Rightarrow> (case parse reg s of Inl e \<Rightarrow> Inl e | Inr parsed \<Rightarrow> new_set parsed)))"
  by pat_completeness auto
termination
  apply (relation "inv_image (less_than <*lex*> less_than <*lex*> less_than) serialising_measure")
                      apply (rule wf_inv_image)
                      apply (intro wf_lex_prod wf_less_than)
                      apply (auto simp: weight_toJSON dest!: weight_entries_array weight_values_array)
  done

declare stringify.simps [simp del] serialize_property.simps [simp del]
  serialize_elements.simps [simp del] serialize_props.simps [simp del]
  replacer.simps [simp del] replace_elements.simps [simp del] replace_props.simps [simp del]
  replace_value.simps [simp del] call_replacer.simps [simp del]

section \<open>Matching, and what a round trip is\<close>

text \<open>
  What the inner loop of \<open>replacer\<close> finds for one entry and one value.  The entry
  encodes the value when its check returns a truthy result and its replacer function a
  truthy result; \<open>encoding_of\<close> is then the text the tag is put in front of.  The loop
  passes over the entry when the check is falsy, or the check is truthy and the result
  of the replacer function falsy; a throw is neither.  \<open>matched_by\<close> is the condition
  on the check and the replacer function alone.
\<close>

definition encoding_of :: "registry \<Rightarrow> replacer_entry \<Rightarrow> jsval \<Rightarrow> string option" where
  "encoding_of reg rp v =
     (case call_replacer reg (rp_check rp) v of
        Inl e \<Rightarrow> None
      | Inr check \<Rightarrow>
          if truthy check then
            (case call_replacer reg (rp_exec rp) v of
               Inl e \<Rightarrow> None
             | Inr success \<Rightarrow>
                 if truthy success then (case to_string success of Inl e \<Rightarrow> None | Inr s \<Rightarrow> Some s)
                 else None)
          else None)"

definition passes_over :: "registry \<Rightarrow> replacer_entry \<Rightarrow> jsval \<Rightarrow> bool" where
  "passes_over reg rp v =
     (case call_replacer reg (rp_check rp) v of
        Inl e \<Rightarrow> False
      | Inr check \<Rightarrow>
          if truthy check then
            (case call_replacer reg (rp_exec rp) v of
               Inl e \<Rightarrow> False
             | Inr success \<Rightarrow> \<not> truthy success)
          else True)"

definition matched_by :: "registry \<Rightarrow> replacer_entry \<Rightarrow> jsval \<Rightarrow> bool" where
  "matched_by reg rp v =
     (case call_replacer reg (rp_check rp) v of
        Inl e \<Rightarrow> False
      | Inr check \<Rightarrow>
          truthy check \<and>
          (case call_replacer reg (rp_exec rp) v of
             Inl e \<Rightarrow> False
           | Inr success \<Rightarrow> truthy success))"

text \<open>A character that is written into a JSON string as it is and read back as it
  is.\<close>

definition plain_char :: "char \<Rightarrow> bool" where
  "plain_char ch = (ch \<noteq> dquote \<and> ch \<noteq> backslash \<and> 32 \<le> (of_char ch :: nat))"


text \<open>The standard registry with a second Date codec, tagged \<open>(10)\<close>, registered after
  it.\<close>

definition two_date_codecs :: registry where
  "two_date_codecs =
     snd (add_chain (ValArg (VStr ''(10)''))
            [(MCheck, FnArg (Pure date_check)), (MReplacer, FnArg (Pure date_replacer)),
             (MReviver, FnArg (Pure date_reviver))]
            (snd (activateStandards empty_registry)))"


section \<open>Trees of JSON values, and what a round trip of one is\<close>

text \<open>
  The text the host writes for a tree of JSON values when nothing is replaced: the
  literals, a number in decimal, a quoted string, the elements of an array between
  brackets and the members of an object between braces, separated by commas.  The
  other values are written as the host writes them when no codec takes them: nothing
  for \<open>undefined\<close> and a BigInt, an empty object for the rest.
\<close>

fun json_text :: "jsval \<Rightarrow> string"
  and json_texts :: "jsval list \<Rightarrow> string list"
  and json_members :: "(string \<times> jsval) list \<Rightarrow> string list"
where
  "json_text VNull = ''null''"
| "json_text (VBool b) = (if b then ''true'' else ''false'')"
| "json_text (VNum n) = json_number n"
| "json_text (VStr s) = quote s"
| "json_text (VArr xs) = ''['' @ join_commas (json_texts xs) @ '']''"
| "json_text (VObj kvs) = ''{'' @ join_commas (json_members kvs) @ ''}''"
| "json_text VUndefined = []"
| "json_text (VBigInt n) = []"
| "json_text (VRegExp s f) = ''{}''"
| "json_text (VDate n) = ''{}''"
| "json_text (VMap es) = ''{}''"
| "json_text (VSet xs) = ''{}''"
| "json_texts [] = []"
| "json_texts (x # xs) = json_text x # json_texts xs"
| "json_members [] = []"
| "json_members ((k, v) # kvs) = (quote k @ '':'' @ json_text v) # json_members kvs"

text \<open>
  The properties of an object are listed in the order the host enumerates them: no key
  twice, the array indices first and ascending, the other keys as they were created.
  A list is in that order when creating its properties one after the other, in an
  empty object, gives the list back.
\<close>

definition enumeration_order :: "(string \<times> jsval) list \<Rightarrow> bool" where
  "enumeration_order kvs = (foldl (\<lambda>acc (k, v). obj_put acc k v) [] kvs = kvs)"

text \<open>A tree of JSON-native values: \<open>null\<close>, booleans, strings, finite numbers, and
  arrays and objects of such values.\<close>

fun json_native :: "jsval \<Rightarrow> bool"
  and json_native_list :: "jsval list \<Rightarrow> bool"
  and json_native_props :: "(string \<times> jsval) list \<Rightarrow> bool"
where
  "json_native VNull = True"
| "json_native (VBool b) = True"
| "json_native (VNum n) = finite_number n"
| "json_native (VStr s) = True"
| "json_native (VArr xs) = json_native_list xs"
| "json_native (VObj kvs) = (enumeration_order kvs \<and> json_native_props kvs)"
| "json_native VUndefined = False"
| "json_native (VBigInt n) = False"
| "json_native (VRegExp s f) = False"
| "json_native (VDate n) = False"
| "json_native (VMap es) = False"
| "json_native (VSet xs) = False"
| "json_native_list [] = True"
| "json_native_list (x # xs) = (json_native x \<and> json_native_list xs)"
| "json_native_props [] = True"
| "json_native_props ((k, v) # kvs) = (json_native v \<and> json_native_props kvs)"

text \<open>What may follow a value in a JSON text: the end, a comma, or a closing bracket
  or brace.\<close>

definition delimited :: "string \<Rightarrow> bool" where
  "delimited rest = (case rest of [] \<Rightarrow> True | c # cs \<Rightarrow> c \<in> {CHR '','', CHR '']'', CHR ''}''})"

text \<open>A text at which a run of decimal digits stops.\<close>

definition stops :: "string \<Rightarrow> bool" where
  "stops tail = (tail = [] \<or> \<not> is_digit_in 10 (hd tail))"

text \<open>\<open>parse(stringify(v))\<close> returns, and returns the value \<open>v\<close> was before the call
  (\<open>stringify\<close> may have changed the object it was given).\<close>

definition round_trip :: "registry \<Rightarrow> jsval \<Rightarrow> bool" where
  "round_trip reg v =
     (case stringify reg v of
        Inl e \<Rightarrow> False
      | Inr (t, v') \<Rightarrow> (case t of None \<Rightarrow> False | Some text \<Rightarrow> parse reg text = Inr v))"

text \<open>
  With the standard codecs, the inner loop of \<open>replacer\<close> turns an element or a
  property value that is a number into a string tagged \<open>(00)\<close> and leaves the other
  JSON-native values (\<open>replaced\<close>); \<open>tagged\<close> is the tree after \<open>stringify\<close> has gone
  through all of it: every number below the root is such a string.
\<close>

definition replaced :: "jsval \<Rightarrow> jsval" where
  "replaced x = (case x of VNum n \<Rightarrow> VStr (''(00)'' @ number_to_string 36 n) | _ \<Rightarrow> x)"

fun tagged :: "jsval \<Rightarrow> jsval"
  and tagged_list :: "jsval list \<Rightarrow> jsval list"
  and tagged_props :: "(string \<times> jsval) list \<Rightarrow> (string \<times> jsval) list"
where
  "tagged VNull = VNull"
| "tagged (VBool b) = VBool b"
| "tagged (VNum n) = VNum n"
| "tagged (VStr s) = VStr s"
| "tagged (VArr xs) = VArr (tagged_list xs)"
| "tagged (VObj kvs) = VObj (tagged_props kvs)"
| "tagged VUndefined = VUndefined"
| "tagged (VBigInt n) = VBigInt n"
| "tagged (VRegExp s f) = VRegExp s f"
| "tagged (VDate n) = VDate n"
| "tagged (VMap es) = VMap es"
| "tagged (VSet xs) = VSet xs"
| "tagged_list [] = []"
| "tagged_list (x # xs) =
     (case x of VNum n \<Rightarrow> VStr (''(00)'' @ number_to_string 36 n) | _ \<Rightarrow> tagged x) # tagged_list xs"
| "tagged_props [] = []"
| "tagged_props ((k, v) # kvs) =
     (k, case v of VNum n \<Rightarrow> VStr (''(00)'' @ number_to_string 36 n) | _ \<Rightarrow> tagged v) # tagged_props kvs"

text \<open>
  A string that begins with none of the standard tags; a number the number codec
  restores, an integer other than \<open>0\<close> of which \<open>toString(36)\<close> writes every digit;
  and a tree the standard codecs restore: every string in it is such a string, and
  every element and every property value that is a number is such a number.
\<close>

definition untagged :: "string \<Rightarrow> bool" where
  "untagged s = list_all (\<lambda>st. take (length (s_tag st)) s \<noteq> s_tag st) standards"

fun restored_number :: "jsnum \<Rightarrow> bool" where
  "restored_number NaN = False"
| "restored_number (Whole n) = (n \<noteq> 0 \<and> \<bar>n\<bar> < 9007199254740992)"
| "restored_number (Frac m k) = False"

fun restorable :: "jsval \<Rightarrow> bool"
  and restorable_list :: "jsval list \<Rightarrow> bool"
  and restorable_props :: "(string \<times> jsval) list \<Rightarrow> bool"
where
  "restorable VNull = True"
| "restorable (VBool b) = True"
| "restorable (VNum n) = True"
| "restorable (VStr s) = untagged s"
| "restorable (VArr xs) = restorable_list xs"
| "restorable (VObj kvs) = restorable_props kvs"
| "restorable VUndefined = True"
| "restorable (VBigInt n) = True"
| "restorable (VRegExp s f) = True"
| "restorable (VDate n) = True"
| "restorable (VMap es) = True"
| "restorable (VSet xs) = True"
| "restorable_list [] = True"
| "restorable_list (x # xs) =
     ((case x of VNum n \<Rightarrow> restored_number n | _ \<Rightarrow> restorable x) \<and> restorable_list xs)"
| "restorable_props [] = True"
| "restorable_props ((k, v) # kvs) =
     ((case v of VNum n \<Rightarrow> restored_number n | _ \<Rightarrow> restorable v) \<and> restorable_props kvs)"


section \<open>Invariants used in the proofs\<close>

text \<open>The registry invariant that every chained expression keeps: tags are unique
  on both sides, and a tag with a reviver entry has a replacer entry.\<close>

definition reg_inv :: "registry \<Rightarrow> bool" where
  "reg_inv reg = (unique_tags reg \<and> rv_tag ` set (revivers reg) \<subseteq> rp_tag ` set (replacers reg))"

text \<open>What holds of the registry while a builder object is waiting for its next
  method call inside one chained expression.\<close>

fun builder_ok :: "builder option \<Rightarrow> registry \<Rightarrow> bool" where
  "builder_ok None reg = reg_inv reg"
| "builder_ok (Some (AddBuilder t)) reg = (reg_inv reg \<and> t \<notin> rp_tag ` set (replacers reg))"
| "builder_ok (Some (CheckBuilder t c)) reg = (reg_inv reg \<and> t \<notin> rp_tag ` set (replacers reg))"
| "builder_ok (Some (ReplacerBuilder t)) reg =
     (reg_inv reg \<and> t \<in> rp_tag ` set (replacers reg) \<and> t \<notin> rv_tag ` set (revivers reg))"
| "builder_ok (Some (ModifyBuilder t i j)) reg = reg_inv reg"


section \<open>Properties of the registry\<close>

subsection \<open>Looking up a tag\<close>

lemma index_of_first_ge: "index_of_first p xs \<ge> -1"
  by (induction xs) (auto simp: Let_def)

lemma index_of_first_neg_iff: "index_of_first p xs < 0 \<longleftrightarrow> (\<forall>x\<in>set xs. \<not> p x)"
  by (induction xs) (auto simp: Let_def)

lemma index_of_first_bound: "index_of_first p xs < int (length xs)"
  by (induction xs) (auto simp: Let_def)

lemma find_tag_string:
  "find_tag (ValArg (VStr t)) reg =
     (if t \<in> rp_tag ` set (replacers reg)
      then Inr (Some (index_of_first (\<lambda>e. rp_tag e = t) (replacers reg),
                      index_of_first (\<lambda>e. rp_tag e = t) (replacers reg)))
      else Inr None)"
  using index_of_first_neg_iff [of "\<lambda>e. rp_tag e = t" "replacers reg"]
  by (auto simp: find_tag_def isString_def Let_def not_le)

lemma find_tag_not_string:
  "isString tag = Inl e \<Longrightarrow> find_tag tag reg = Inl e"
  by (simp add: find_tag_def)

lemma isString_cases:
  "(\<exists>t. tag = ValArg (VStr t) \<and> isString tag = Inr t)
   \<or> isString tag = Inl (TypeError ''argument is not a string'')"
proof (cases tag)
  case (FnArg f)
  then show ?thesis by (simp add: isString_def)
next
  case (ValArg v)
  then show ?thesis by (cases v) (simp_all add: isString_def)
qed

lemma array_splice_zero: "array_splice xs start 0 = xs"
  by (simp add: array_splice_def Let_def)

lemma remove_tag_registry: "snd (remove_tag tag reg) = reg"
  by (auto simp: remove_tag_def array_splice_zero split: sum.splits option.splits)

lemma add_result:
  "add tag reg = Inr b \<Longrightarrow> \<exists>t. tag = ValArg (VStr t) \<and> b = AddBuilder t \<and> t \<notin> rp_tag ` set (replacers reg)"
  using isString_cases [of tag]
  by (auto simp: add_def find_tag_string split: if_splits)

lemma add_present:
  "t \<in> rp_tag ` set (replacers reg) \<Longrightarrow>
   add (ValArg (VStr t)) reg = Inl (Error ''Replacer/ Reviver already exists'')"
  by (simp add: add_def find_tag_string isString_def)

lemma modify_result:
  "modify tag reg = Inr b \<Longrightarrow> \<exists>t i j. b = ModifyBuilder t i j"
  using isString_cases [of tag]
  by (auto simp: modify_def find_tag_string split: if_splits)

lemma activateStandards_fresh: "activateStandards empty_registry = (Inr (), standard_registry)"
  by (simp add: activateStandards_def standards_def standard_registry_def empty_registry_def
      add_chain_def add_def find_tag_def isString_def isFunction_def invoke_on_def Let_def)

subsection \<open>Removal\<close>

text \<open>
  C4.  The claim: for a tag with a replacer entry and a reviver entry, \<open>remove\<close>
  deletes both entries.  The code at the input \<open>remove("(01)")\<close> after
  \<open>activateStandards()\<close>: the call returns normally and both sequences still hold all
  six tags, \<open>(01)\<close> among them.  \<open>splice(index, 0)\<close> deletes nothing.
\<close>

theorem remove_removes_nothing:
  "activateStandards empty_registry = (Inr (), standard_registry)
   \<and> remove_tag (ValArg (VStr ''(01)'')) standard_registry = (Inr (), standard_registry)
   \<and> map rp_tag (replacers standard_registry) = [''(00)'', ''(01)'', ''(02)'', ''(03)'', ''(04)'', ''(05)'']
   \<and> map rv_tag (revivers standard_registry) = [''(00)'', ''(01)'', ''(02)'', ''(03)'', ''(04)'', ''(05)'']"
  by (simp add: activateStandards_fresh)
    (simp add: remove_tag_def find_tag_def isString_def standard_registry_def standards_def
      array_splice_def Let_def)

text \<open>
  C10.  When \<open>find(tag)\<close> yields no hit, \<open>remove(tag)\<close> throws a TypeError (the
  destructuring of \<open>undefined\<close>) and the registry is as before.
\<close>

theorem remove_unknown_throws:
  assumes "find_tag tag reg = Inr None"
  shows "remove_tag tag reg = (Inl (TypeError ''undefined is not iterable''), reg)
         \<and> is_TypeError (TypeError ''undefined is not iterable'')"
  using assms by (simp add: remove_tag_def)

theorem remove_unknown_throws_witness:
  "find_tag (ValArg (VStr ''(99)'')) standard_registry = Inr None
   \<and> remove_tag (ValArg (VStr ''(99)'')) standard_registry
       = (Inl (TypeError ''undefined is not iterable''), standard_registry)"
proof -
  have h: "find_tag (ValArg (VStr ''(99)'')) standard_registry = Inr None"
    by (simp add: find_tag_def isString_def standard_registry_def standards_def Let_def)
  from remove_unknown_throws [OF h] h show ?thesis by simp
qed

subsection \<open>Lookup by tag\<close>

text \<open>
  C5.  The claim: \<open>find\<close> returns a pair of indices only when the tag has both a
  replacer entry and a reviver entry.  The code at the registry left by
  \<open>add("(10)").check(c).replacer(r)\<close> with no call of \<open>reviver\<close>: the revivers are
  empty and \<open>find("(10)")\<close> returns \<open>[0, 0]\<close>.
\<close>

theorem find_hits_without_reviver:
  "add_chain (ValArg (VStr ''(10)'')) [(MCheck, FnArg (Pure number_check)), (MReplacer, FnArg (Pure number_replacer))] empty_registry
     = (Inr (Some (ReplacerBuilder ''(10)'')),
        \<lparr>replacers = [\<lparr>rp_tag = ''(10)'', rp_check = Pure number_check, rp_exec = Pure number_replacer\<rparr>],
         revivers = []\<rparr>)
   \<and> find_tag (ValArg (VStr ''(10)''))
        \<lparr>replacers = [\<lparr>rp_tag = ''(10)'', rp_check = Pure number_check, rp_exec = Pure number_replacer\<rparr>],
         revivers = []\<rparr> = Inr (Some (0, 0))"
  by (simp add: add_chain_def add_def find_tag_def isString_def isFunction_def invoke_on_def
      empty_registry_def Let_def)

subsection \<open>Registering a tag twice\<close>

text \<open>
  C7.  When a tag has its replacer entry and its reviver entry, a second
  \<open>add(tag)\<close> throws \<open>Error("Replacer/ Reviver already exists")\<close>; whatever the
  chained expression would have called next is not run, and the registry is as before.
\<close>

theorem add_twice_rejected:
  assumes "\<exists>e\<in>set (replacers reg). rp_tag e = t"
    and "\<exists>e\<in>set (revivers reg). rv_tag e = t"
  shows "add (ValArg (VStr t)) reg = Inl (Error ''Replacer/ Reviver already exists'')
         \<and> add_chain (ValArg (VStr t)) ms reg = (Inl (Error ''Replacer/ Reviver already exists''), reg)"
proof -
  from assms(1) have "t \<in> rp_tag ` set (replacers reg)" by auto
  then have "add (ValArg (VStr t)) reg = Inl (Error ''Replacer/ Reviver already exists'')"
    by (rule add_present)
  then show ?thesis by (simp add: add_chain_def)
qed

theorem add_twice_rejected_witness:
  "(\<exists>e\<in>set (replacers standard_registry). rp_tag e = ''(03)'')
   \<and> (\<exists>e\<in>set (revivers standard_registry). rv_tag e = ''(03)'')
   \<and> add (ValArg (VStr ''(03)'')) standard_registry = Inl (Error ''Replacer/ Reviver already exists'')
   \<and> add_chain (ValArg (VStr ''(03)'')) [(MCheck, FnArg (Pure date_check))] standard_registry
       = (Inl (Error ''Replacer/ Reviver already exists''), standard_registry)"
proof -
  have h1: "\<exists>e\<in>set (replacers standard_registry). rp_tag e = ''(03)''"
    by (simp add: standard_registry_def standards_def)
  have h2: "\<exists>e\<in>set (revivers standard_registry). rv_tag e = ''(03)''"
    by (simp add: standard_registry_def standards_def)
  from add_twice_rejected [OF h1 h2, of "[(MCheck, FnArg (Pure date_check))]"] h1 h2
  show ?thesis by simp
qed

subsection \<open>Uniqueness of tags\<close>

lemma builder_ok_inv: "builder_ok obj reg \<Longrightarrow> reg_inv reg"
  by (cases "(obj, reg)" rule: builder_ok.cases) auto

lemma set_at_rp_tags:
  "set_at xs i upd = Inr ys \<Longrightarrow> (\<And>e. rp_tag (upd e) = rp_tag e) \<Longrightarrow> map rp_tag ys = map rp_tag xs"
  by (auto simp: set_at_def map_update list_update_same_conv split: if_splits)

lemma set_at_rv_tags:
  "set_at xs i upd = Inr ys \<Longrightarrow> (\<And>e. rv_tag (upd e) = rv_tag e) \<Longrightarrow> map rv_tag ys = map rv_tag xs"
  by (auto simp: set_at_def map_update list_update_same_conv split: if_splits)

lemma reg_inv_tags_cong:
  "map rp_tag (replacers reg') = map rp_tag (replacers reg) \<Longrightarrow>
   map rv_tag (revivers reg') = map rv_tag (revivers reg) \<Longrightarrow> reg_inv reg' = reg_inv reg"
  unfolding reg_inv_def unique_tags_def
  by (metis set_map)

lemma modify_after_ok:
  "reg_inv reg \<Longrightarrow> (case map_sum id Some (modify tag reg) of Inl e \<Rightarrow> reg_inv reg | Inr obj \<Rightarrow> builder_ok obj reg)"
proof (cases "modify tag reg")
  case (Inl e)
  assume "reg_inv reg"
  with Inl show ?thesis by simp
next
  case (Inr b)
  assume "reg_inv reg"
  with Inr modify_result [OF Inr] show ?thesis by auto
qed

lemma invoke_modify_ok:
  assumes inv: "reg_inv reg"
    and tags: "map rp_tag (replacers reg') = map rp_tag (replacers reg)"
      "map rv_tag (revivers reg') = map rv_tag (revivers reg)"
    and r: "r = map_sum id Some (modify tag reg')"
  shows "case r of Inl e \<Rightarrow> reg_inv reg' | Inr obj \<Rightarrow> builder_ok obj reg'"
proof -
  have "reg_inv reg'" using inv reg_inv_tags_cong [OF tags] by simp
  then show ?thesis unfolding r by (rule modify_after_ok)
qed

lemma push_replacer_ok:
  assumes "reg_inv reg" "t \<notin> rp_tag ` set (replacers reg)"
  shows "builder_ok (Some (ReplacerBuilder t))
           (reg\<lparr>replacers := replacers reg @ [\<lparr>rp_tag = t, rp_check = c, rp_exec = r\<rparr>]\<rparr>)"
  using assms by (auto simp: reg_inv_def unique_tags_def)

lemma push_reviver_ok:
  assumes "reg_inv reg" "t \<in> rp_tag ` set (replacers reg)" "t \<notin> rv_tag ` set (revivers reg)"
  shows "reg_inv (reg\<lparr>revivers := revivers reg @ [\<lparr>rv_tag = t, rv_exec = v\<rparr>]\<rparr>)"
  using assms by (auto simp: reg_inv_def unique_tags_def)

lemma invoke_ok:
  assumes "builder_ok (Some b) reg" "invoke b m a reg = (r, reg')"
  shows "case r of Inl e \<Rightarrow> reg_inv reg' | Inr obj \<Rightarrow> builder_ok obj reg'"
proof (cases "isFunction a")
  case (Inl e)
  then have "reg' = reg \<and> (\<exists>e. r = Inl e)"
    using assms(2) by (cases "(b, m, a, reg)" rule: invoke.cases) auto
  then show ?thesis using builder_ok_inv [OF assms(1)] by auto
next
  case (Inr f)
  show ?thesis
  proof (cases "(b, m, a, reg)" rule: invoke.cases)
    case (1 tag checkExec reg0)
    then show ?thesis using assms Inr by auto
  next
    case (2 tag c replaceExec reg0)
    then show ?thesis using assms Inr push_replacer_ok [of reg tag c f] by auto
  next
    case (3 tag reviveExec reg0)
    then show ?thesis using assms Inr push_reviver_ok [of reg tag f] by auto
  next
    case (4 tag i j exec reg0)
    show ?thesis
    proof (cases "set_at (replacers reg) i (\<lambda>e. e\<lparr>rp_check := f\<rparr>)")
      case (Inl e)
      then show ?thesis using 4 assms Inr by auto
    next
      case (Inr rs)
      have tg: "map rp_tag rs = map rp_tag (replacers reg)"
        by (rule set_at_rp_tags [OF Inr]) simp
      have "reg' = reg\<lparr>replacers := rs\<rparr>" "r = map_sum id Some (modify (ValArg (VStr tag)) reg')"
        using 4 assms(2) Inr \<open>isFunction a = Inr f\<close> by (auto simp: Let_def)
      then show ?thesis
        using invoke_modify_ok [of reg reg' r "ValArg (VStr tag)"] assms(1) 4 tg by simp
    qed
  next
    case (5 tag i j exec reg0)
    show ?thesis
    proof (cases "set_at (replacers reg) i (\<lambda>e. e\<lparr>rp_exec := f\<rparr>)")
      case (Inl e)
      then show ?thesis using 5 assms Inr by auto
    next
      case (Inr rs)
      have tg: "map rp_tag rs = map rp_tag (replacers reg)"
        by (rule set_at_rp_tags [OF Inr]) simp
      have "reg' = reg\<lparr>replacers := rs\<rparr>" "r = map_sum id Some (modify (ValArg (VStr tag)) reg')"
        using 5 assms(2) Inr \<open>isFunction a = Inr f\<close> by (auto simp: Let_def)
      then show ?thesis
        using invoke_modify_ok [of reg reg' r "ValArg (VStr tag)"] assms(1) 5 tg by simp
    qed
  next
    case (6 tag i j exec reg0)
    show ?thesis
    proof (cases "set_at (revivers reg) j (\<lambda>e. e\<lparr>rv_exec := f\<rparr>)")
      case (Inl e)
      then show ?thesis using 6 assms Inr by auto
    next
      case (Inr vs)
      have tg: "map rv_tag vs = map rv_tag (revivers reg)"
        by (rule set_at_rv_tags [OF Inr]) simp
      have "reg' = reg\<lparr>revivers := vs\<rparr>" "r = map_sum id Some (modify (ValArg (VStr tag)) reg')"
        using 6 assms(2) Inr \<open>isFunction a = Inr f\<close> by (auto simp: Let_def)
      then show ?thesis
        using invoke_modify_ok [of reg reg' r "ValArg (VStr tag)"] assms(1) 6 tg by simp
    qed
  qed (use assms builder_ok_inv [OF assms(1)] in auto)
qed

lemma chained_ok:
  "builder_ok obj reg \<Longrightarrow> reg_inv (snd (chained obj ms reg))"
proof (induction ms arbitrary: obj reg)
  case Nil
  then show ?case by (simp add: builder_ok_inv)
next
  case (Cons ma ms)
  obtain m a where ma: "ma = (m, a)" by (cases ma)
  show ?case
  proof (cases obj)
    case None
    then show ?thesis using Cons.prems ma by (simp add: invoke_on_def)
  next
    case (Some b)
    obtain r reg' where inv: "invoke b m a reg = (r, reg')" by (cases "invoke b m a reg")
    from invoke_ok [OF _ inv] Cons.prems Some
    have ok: "case r of Inl e \<Rightarrow> reg_inv reg' | Inr obj \<Rightarrow> builder_ok obj reg'" by simp
    show ?thesis
    proof (cases r)
      case (Inl e)
      then show ?thesis using ok inv Some ma by (simp add: invoke_on_def)
    next
      case (Inr obj')
      then show ?thesis using ok inv Some ma Cons.IH [of obj' reg'] by (simp add: invoke_on_def)
    qed
  qed
qed

lemma add_chain_ok: "reg_inv reg \<Longrightarrow> reg_inv (snd (add_chain tag ms reg))"
proof (cases "add tag reg")
  case (Inl e)
  assume "reg_inv reg"
  then show ?thesis using Inl by (simp add: add_chain_def)
next
  case (Inr b)
  assume "reg_inv reg"
  with add_result [OF Inr] have "builder_ok (Some b) reg" by auto
  then show ?thesis using Inr chained_ok by (simp add: add_chain_def)
qed

lemma modify_chain_ok: "reg_inv reg \<Longrightarrow> reg_inv (snd (modify_chain tag ms reg))"
proof (cases "modify tag reg")
  case (Inl e)
  assume "reg_inv reg"
  then show ?thesis using Inl by (simp add: modify_chain_def)
next
  case (Inr b)
  assume "reg_inv reg"
  with modify_result [OF Inr] have "builder_ok (Some b) reg" by auto
  then show ?thesis using Inr chained_ok by (simp add: modify_chain_def)
qed

lemma activate_each_ok: "reg_inv reg \<Longrightarrow> reg_inv (snd (activate_each ss reg))"
proof (induction ss arbitrary: reg)
  case Nil
  then show ?case by simp
next
  case (Cons s ss)
  let ?c = "add_chain (ValArg (VStr (s_tag s)))
             [(MCheck, FnArg (s_check s)), (MReplacer, FnArg (s_replacer s)),
              (MReviver, FnArg (s_reviver s))] reg"
  have "reg_inv (snd ?c)" using Cons.prems by (rule add_chain_ok)
  then show ?case using Cons.IH [of "snd ?c"]
    by (cases ?c) (auto split: sum.splits)
qed

lemma exec_statement_ok: "reg_inv reg \<Longrightarrow> reg_inv (exec_statement s reg)"
  by (cases s) (simp_all add: add_chain_ok modify_chain_ok remove_tag_registry activateStandards_def activate_each_ok)

lemma run_statements_ok: "reg_inv reg \<Longrightarrow> reg_inv (run_statements ss reg)"
  by (induction ss arbitrary: reg) (simp_all add: exec_statement_ok)

lemma reg_inv_empty: "reg_inv empty_registry"
  by (simp add: reg_inv_def unique_tags_def empty_registry_def)

text \<open>
  C6, as stated: tags stay unique under every interleaving of add builder chains.
  Two chains for the same tag, both started before either has pushed its entry, leave
  two replacer entries with that tag.
\<close>

theorem interleaved_chains_duplicate_tag:
  "\<not> unique_tags (fst (run_calls
      [Add (ValArg (VStr ''(10)'')), Add (ValArg (VStr ''(10)'')),
       Invoke 0 MCheck (FnArg (Pure number_check)), Invoke 1 MCheck (FnArg (Pure number_check)),
       Invoke 2 MReplacer (FnArg (Pure number_replacer)), Invoke 3 MReplacer (FnArg (Pure number_replacer))]
      (empty_registry, [])))"
  by (simp add: add_def find_tag_def isString_def isFunction_def invoke_on_def
      empty_registry_def Let_def unique_tags_def)

text \<open>
  C6, amended.  In every program whose statements are chained expressions (each
  method is called on the object the call before it returned, and no builder object is
  kept and used again), \<open>remove\<close> calls and \<open>activateStandards\<close> calls, started on
  the empty registry, no two replacer entries and no two reviver entries share a tag at
  any point.
\<close>

theorem chained_programs_keep_tags_unique:
  "unique_tags (run_statements (take n ss) empty_registry)"
  using run_statements_ok [OF reg_inv_empty, of "take n ss"] by (simp add: reg_inv_def)

theorem chained_programs_keep_tags_unique_witness:
  "unique_tags (run_statements (take 3
      [ActivateStandards, AddChain (ValArg (VStr ''(00)'')) [], Remove (ValArg (VStr ''(01)'')),
       ActivateStandards]) empty_registry)"
  by (rule chained_programs_keep_tags_unique)

section \<open>Rules for evaluating the model\<close>

lemma activateStandards_fresh_snd: "snd (activateStandards empty_registry) = standard_registry"
  by (simp add: activateStandards_fresh)

lemmas std_registry = standard_registry_def standards_def
lemmas std_checks = number_check_def bigint_check_def regexp_check_def date_check_def map_check_def set_check_def
lemmas json_eval = parse_value.simps parse_elements.simps parse_members.simps json_parse_def skip_ws_def is_json_space_def
  lex_number_def is_digit_in_def digit_value_def obj_put_def array_index_def safe_integer_def Let_def
lemmas decode_defs = parse.simps internalize.simps reviver.simps reviver_from.simps call_reviver.simps
  internalize_elements.simps internalize_props.simps

lemmas decode_eval = decode_defs std_registry
  number_reviver_def date_reviver_def parseInt36_def parse_int36_def is_js_space_def new_map_def new_set_def
  bigint_reviver_def regexp_reviver_def

section \<open>Properties of serialising\<close>

subsection \<open>The replacer returns its argument, with properties replaced by strings\<close>

lemma weight_pos: "0 < weight v"
  by (cases v) auto

lemma replace_value_result:
  "replace_value reg rps x = Inr x' \<Longrightarrow> x' = x \<or> (\<exists>s. x' = VStr s)"
  by (induction rps) (auto simp: replace_value.simps split: sum.splits if_splits)

lemma replace_value_weight:
  "replace_value reg rps x = Inr x' \<Longrightarrow> weight x' \<le> weight x"
  using replace_value_result [of reg rps x x'] weight_pos [of x] by (auto simp: Suc_le_eq)

lemma replace_elements_weight:
  "replace_elements reg xs = Inr xs' \<Longrightarrow> weight_list xs' \<le> weight_list xs"
proof (induction xs arbitrary: xs')
  case Nil
  then show ?case by (simp add: replace_elements.simps)
next
  case (Cons x xs)
  then show ?case
    by (auto simp: replace_elements.simps split: sum.splits dest!: replace_value_weight)
qed

lemma replace_props_weight:
  "replace_props reg kvs = Inr kvs' \<Longrightarrow> weight_props kvs' \<le> weight_props kvs"
proof (induction kvs arbitrary: kvs')
  case Nil
  then show ?case by (simp add: replace_props.simps)
next
  case (Cons kv kvs)
  obtain k v where "kv = (k, v)" by (cases kv)
  with Cons show ?case
    by (auto simp: replace_props.simps split: sum.splits dest!: replace_value_weight)
qed

lemma replacer_weight: "replacer reg name val = Inr val' \<Longrightarrow> weight val' \<le> weight val"
  by (cases val)
    (auto simp: replacer.simps map_sum_def split: sum.splits
      dest!: replace_elements_weight replace_props_weight)

text \<open>The test on the weights in \<open>serialize_property\<close> never fails, so the function
  is what the host does.\<close>

lemma serialize_property_eq:
  "serialize_property reg key held =
     (case replacer reg key (case held of VDate n \<Rightarrow> date_to_json n | _ \<Rightarrow> held) of
           Inl e \<Rightarrow> Inl e
         | Inr value' \<Rightarrow>
               (case value' of
                  VUndefined \<Rightarrow> Inr (None, held)
                | VNull \<Rightarrow> Inr (Some ''null'', held)
                | VBool b \<Rightarrow> Inr (Some (if b then ''true'' else ''false''), held)
                | VNum n \<Rightarrow> Inr (Some (json_number n), held)
                | VBigInt n \<Rightarrow> Inl (TypeError ''Do not know how to serialize a BigInt'')
                | VStr s \<Rightarrow> Inr (Some (quote s), held)
                | VArr xs \<Rightarrow>
                    (case serialize_elements reg 0 xs of
                       Inl e \<Rightarrow> Inl e
                     | Inr (ts, xs') \<Rightarrow> Inr (Some (''['' @ join_commas ts @ '']''), VArr xs'))
                | VObj kvs \<Rightarrow>
                    (case serialize_props reg kvs of
                       Inl e \<Rightarrow> Inl e
                     | Inr (ts, kvs') \<Rightarrow> Inr (Some (''{'' @ join_commas ts @ ''}''), VObj kvs'))
                | _ \<Rightarrow> Inr (Some ''{}'', held)))"
proof (cases "replacer reg key (case held of VDate n \<Rightarrow> date_to_json n | _ \<Rightarrow> held)")
  case (Inl e)
  then show ?thesis by (subst serialize_property.simps) (simp add: Let_def)
next
  case (Inr value')
  from replacer_weight [OF Inr] Inr show ?thesis
    by (subst serialize_property.simps) (simp add: Let_def)
qed

lemma serialize_property_string:
  "serialize_property reg key (VStr s) = Inr (Some (quote s), VStr s)"
  by (simp add: serialize_property_eq replacer.simps)

lemma stringify_object:
  "stringify reg (VObj kvs) =
     (case replace_props reg kvs of
        Inl e \<Rightarrow> Inl e
      | Inr kvs1 \<Rightarrow>
          (case serialize_props reg kvs1 of
             Inl e \<Rightarrow> Inl e
           | Inr (ts, kvs2) \<Rightarrow> Inr (Some (''{'' @ join_commas ts @ ''}''), VObj kvs2)))"
  by (cases "replace_props reg kvs") (simp_all add: stringify.simps serialize_property_eq replacer.simps)

lemmas encode_eval = stringify.simps serialize_property_eq serialize_elements.simps serialize_props.simps
  replacer.simps replace_elements.simps replace_props.simps replace_value.simps call_replacer.simps
  std_registry std_checks number_replacer_def bigint_replacer_def
  regexp_replacer_def date_replacer_def
  int_to_string_def digits_in.simps digit_char_def quote_def quote_char_def text_value_def

subsection \<open>Precedence\<close>

lemma first_match:
  "list_all (\<lambda>rp. passes_over reg rp x) pre \<Longrightarrow> encoding_of reg rp x = Some p \<Longrightarrow>
   replace_value reg (pre @ rp # rest) x = Inr (VStr (rp_tag rp @ p))"
proof (induction pre)
  case Nil
  then show ?case
    by (auto simp: replace_value.simps encoding_of_def split: sum.splits if_splits)
next
  case (Cons a pre)
  then show ?case
    by (auto simp: replace_value.simps passes_over_def split: sum.splits if_splits)
qed

lemma two_date_codecs_replacers:
  "replacers two_date_codecs =
     replacers standard_registry @ [\<lparr>rp_tag = ''(10)'', rp_check = Pure date_check, rp_exec = Pure date_replacer\<rparr>]"
  by (simp add: two_date_codecs_def activateStandards_fresh_snd add_chain_def add_def find_tag_def
      isString_def isFunction_def invoke_on_def std_registry Let_def)

text \<open>
  C8.  When two registered entries encode a value and every entry registered before
  the earlier of the two is passed over, the inner loop replaces the value by the
  earlier entry's tag followed by the earlier entry's encoding, wherever the later
  entry stands and whatever it would return; so does \<open>replacer\<close> for a property that
  holds the value, and \<open>stringify\<close> writes that string.
\<close>

theorem earlier_entry_wins:
  assumes "replacers reg = pre @ e1 # mid @ e2 # post"
    and "list_all (\<lambda>rp. passes_over reg rp x) pre"
    and "encoding_of reg e1 x = Some p1"
    and "encoding_of reg e2 x = Some p2"
  shows "replace_value reg (replacers reg) x = Inr (VStr (rp_tag e1 @ p1))
    \<and> replacer reg name (VObj [(k, x)]) = Inr (VObj [(k, VStr (rp_tag e1 @ p1))])
    \<and> stringify reg (VObj [(k, x)])
        = Inr (Some (''{'' @ quote k @ '':'' @ quote (rp_tag e1 @ p1) @ ''}''),
               VObj [(k, VStr (rp_tag e1 @ p1))])"
proof -
  have rv: "replace_value reg (replacers reg) x = Inr (VStr (rp_tag e1 @ p1))"
    unfolding assms(1) using assms(2,3) by (rule first_match)
  have rp: "replacer reg n (VObj [(k, x)]) = Inr (VObj [(k, VStr (rp_tag e1 @ p1))])" for n
    by (simp add: replacer.simps replace_props.simps rv)
  have "stringify reg (VObj [(k, x)])
        = Inr (Some (''{'' @ quote k @ '':'' @ quote (rp_tag e1 @ p1) @ ''}''),
               VObj [(k, VStr (rp_tag e1 @ p1))])"
  proof -
    have sp: "serialize_props reg [(k, VStr (rp_tag e1 @ p1))]
        = Inr ([quote k @ '':'' @ quote (rp_tag e1 @ p1)], [(k, VStr (rp_tag e1 @ p1))])"
      by (simp add: serialize_props.simps serialize_property_string)
    show ?thesis
      by (simp add: stringify.simps serialize_property_eq [of reg "[]" "VObj [(k, x)]"] rp sp)
  qed
  with rv rp show ?thesis by simp
qed

theorem earlier_entry_wins_witness:
  \<open>replacers two_date_codecs =
     [\<lparr>rp_tag = ''(00)'', rp_check = Pure number_check, rp_exec = Pure number_replacer\<rparr>,
      \<lparr>rp_tag = ''(01)'', rp_check = Pure bigint_check, rp_exec = Pure bigint_replacer\<rparr>,
      \<lparr>rp_tag = ''(02)'', rp_check = Pure regexp_check, rp_exec = Pure regexp_replacer\<rparr>]
     @ \<lparr>rp_tag = ''(03)'', rp_check = Pure date_check, rp_exec = Pure date_replacer\<rparr>
     # [\<lparr>rp_tag = ''(04)'', rp_check = Pure map_check, rp_exec = MapReplacer\<rparr>,
        \<lparr>rp_tag = ''(05)'', rp_check = Pure set_check, rp_exec = SetReplacer\<rparr>]
     @ \<lparr>rp_tag = ''(10)'', rp_check = Pure date_check, rp_exec = Pure date_replacer\<rparr> # []
   \<and> list_all (\<lambda>rp. passes_over two_date_codecs rp (VDate (Whole 1595838366018)))
       [\<lparr>rp_tag = ''(00)'', rp_check = Pure number_check, rp_exec = Pure number_replacer\<rparr>,
        \<lparr>rp_tag = ''(01)'', rp_check = Pure bigint_check, rp_exec = Pure bigint_replacer\<rparr>,
        \<lparr>rp_tag = ''(02)'', rp_check = Pure regexp_check, rp_exec = Pure regexp_replacer\<rparr>]
   \<and> encoding_of two_date_codecs \<lparr>rp_tag = ''(03)'', rp_check = Pure date_check, rp_exec = Pure date_replacer\<rparr>
        (VDate (Whole 1595838366018)) = Some ''kd48yjwi''
   \<and> encoding_of two_date_codecs \<lparr>rp_tag = ''(10)'', rp_check = Pure date_check, rp_exec = Pure date_replacer\<rparr>
        (VDate (Whole 1595838366018)) = Some ''kd48yjwi''
   \<and> stringify two_date_codecs (VObj [(''when'', VDate (Whole 1595838366018))])
       = Inr (Some ''{"when":"(03)kd48yjwi"}'', VObj [(''when'', VStr ''(03)kd48yjwi'')])\<close>
proof -
  let ?d = "VDate (Whole 1595838366018)"
  let ?pre = "[\<lparr>rp_tag = ''(00)'', rp_check = Pure number_check, rp_exec = Pure number_replacer\<rparr>,
      \<lparr>rp_tag = ''(01)'', rp_check = Pure bigint_check, rp_exec = Pure bigint_replacer\<rparr>,
      \<lparr>rp_tag = ''(02)'', rp_check = Pure regexp_check, rp_exec = Pure regexp_replacer\<rparr>]"
  let ?e1 = "\<lparr>rp_tag = ''(03)'', rp_check = Pure date_check, rp_exec = Pure date_replacer\<rparr>"
  let ?mid = "[\<lparr>rp_tag = ''(04)'', rp_check = Pure map_check, rp_exec = MapReplacer\<rparr>,
        \<lparr>rp_tag = ''(05)'', rp_check = Pure set_check, rp_exec = SetReplacer\<rparr>]"
  let ?e2 = "\<lparr>rp_tag = ''(10)'', rp_check = Pure date_check, rp_exec = Pure date_replacer\<rparr>"
  have h1: "replacers two_date_codecs = ?pre @ ?e1 # ?mid @ ?e2 # []"
    by (simp add: two_date_codecs_replacers std_registry)
  have h2: "list_all (\<lambda>rp. passes_over two_date_codecs rp ?d) ?pre"
    by (simp add: passes_over_def call_replacer.simps std_checks)
  have h3: "encoding_of two_date_codecs ?e1 ?d = Some ''kd48yjwi''"
    by (simp add: encoding_of_def call_replacer.simps std_checks date_replacer_def
        int_to_string_def digits_in.simps digit_char_def)
  have h4: "encoding_of two_date_codecs ?e2 ?d = Some ''kd48yjwi''"
    by (simp add: encoding_of_def call_replacer.simps std_checks date_replacer_def
        int_to_string_def digits_in.simps digit_char_def)
  from earlier_entry_wins [OF h1 h2 h3 h4, of "[]" "''when''"] h1 h2 h3 h4
  show ?thesis by (simp add: quote_def quote_char_def)
qed

subsection \<open>The argument of stringify is changed\<close>

lemma replace_props_nth:
  "replace_props reg kvs = Inr kvs' \<Longrightarrow>
   length kvs' = length kvs \<and>
   (\<forall>i<length kvs. fst (kvs' ! i) = fst (kvs ! i)
       \<and> replace_value reg (replacers reg) (snd (kvs ! i)) = Inr (snd (kvs' ! i)))"
proof (induction kvs arbitrary: kvs')
  case Nil
  then show ?case by (simp add: replace_props.simps)
next
  case (Cons kv kvs)
  obtain k v where kv: "kv = (k, v)" by (cases kv)
  from Cons.prems kv obtain v' rest where
    v': "replace_value reg (replacers reg) v = Inr v'" and
    rest: "replace_props reg kvs = Inr rest" and eq: "kvs' = (k, v') # rest"
    by (auto simp: replace_props.simps split: sum.splits)
  from Cons.IH [OF rest] v' eq kv show ?case
    by (auto simp: nth_Cons split: nat.splits)
qed

lemma serialize_props_nth:
  "serialize_props reg kvs = Inr (ts, kvs') \<Longrightarrow>
   length kvs' = length kvs \<and>
   (\<forall>i<length kvs. fst (kvs' ! i) = fst (kvs ! i)
       \<and> (\<exists>t. serialize_property reg (fst (kvs ! i)) (snd (kvs ! i)) = Inr (t, snd (kvs' ! i))))"
proof (induction kvs arbitrary: ts kvs')
  case Nil
  then show ?case by (simp add: serialize_props.simps)
next
  case (Cons kv kvs)
  obtain k v where kv: "kv = (k, v)" by (cases kv)
  from Cons.prems kv obtain t v' ts' rest where
    v': "serialize_property reg k v = Inr (t, v')" and
    rest: "serialize_props reg kvs = Inr (ts', rest)" and eq: "kvs' = (k, v') # rest"
    by (auto simp: serialize_props.simps split: sum.splits)
  from Cons.IH [OF rest] v' eq kv show ?case
    by (auto simp: nth_Cons split: nat.splits)
qed

lemma replace_value_matched:
  "replace_value reg rps x = Inr x' \<Longrightarrow> \<exists>rp\<in>set rps. matched_by reg rp x \<Longrightarrow>
   \<exists>rp\<in>set rps. \<exists>p. encoding_of reg rp x = Some p \<and> x' = VStr (rp_tag rp @ p)"
proof (induction rps)
  case Nil
  then show ?case by simp
next
  case (Cons a rps)
  show ?case
  proof (cases "matched_by reg a x")
    case True
    then obtain p where "encoding_of reg a x = Some p" "x' = VStr (rp_tag a @ p)"
      using Cons.prems(1)
      by (auto simp: replace_value.simps matched_by_def encoding_of_def split: sum.splits if_splits)
    then show ?thesis by auto
  next
    case False
    then have "replace_value reg rps x = Inr x'" and "\<exists>rp\<in>set rps. matched_by reg rp x"
      using Cons.prems
      by (auto simp: replace_value.simps matched_by_def split: sum.splits if_splits)
    from Cons.IH [OF this] show ?thesis by auto
  qed
qed

text \<open>
  C9.  When \<open>stringify\<close> returns for an object, every property whose value is matched
  by a registered entry (its check is truthy and its replacer function returns a truthy
  result) holds, in the object that was passed in, the tag of an entry followed by that
  entry's encoding of the original value.
\<close>

theorem stringify_overwrites_property:
  assumes "stringify reg (VObj kvs) = Inr (t, after)"
    and "i < length kvs" and "kvs ! i = (k, x)"
    and "\<exists>rp\<in>set (replacers reg). matched_by reg rp x"
  shows "\<exists>rp\<in>set (replacers reg). \<exists>p kvs'.
           encoding_of reg rp x = Some p \<and> after = VObj kvs' \<and> length kvs' = length kvs
           \<and> kvs' ! i = (k, VStr (rp_tag rp @ p))"
proof -
  from assms(1) obtain kvs1 ts kvs2 where r1: "replace_props reg kvs = Inr kvs1"
    and s2: "serialize_props reg kvs1 = Inr (ts, kvs2)" and after: "after = VObj kvs2"
    by (auto simp: stringify_object split: sum.splits)
  from replace_props_nth [OF r1] assms(2,3)
  have l1: "length kvs1 = length kvs" and k1: "fst (kvs1 ! i) = k"
    and rv: "replace_value reg (replacers reg) x = Inr (snd (kvs1 ! i))"
    by auto
  from replace_value_matched [OF rv assms(4)]
  obtain rp p where rp: "rp \<in> set (replacers reg)" and enc: "encoding_of reg rp x = Some p"
    and x1: "snd (kvs1 ! i) = VStr (rp_tag rp @ p)" by auto
  from serialize_props_nth [OF s2] l1 assms(2) k1 x1
  have l2: "length kvs2 = length kvs" and k2: "fst (kvs2 ! i) = k"
    and "\<exists>t. serialize_property reg k (VStr (rp_tag rp @ p)) = Inr (t, snd (kvs2 ! i))"
    by auto
  then have "snd (kvs2 ! i) = VStr (rp_tag rp @ p)"
    by (auto simp: serialize_property_string)
  with k2 have "kvs2 ! i = (k, VStr (rp_tag rp @ p))" by (cases "kvs2 ! i") auto
  with rp enc after l2 show ?thesis by blast
qed

theorem stringify_overwrites_property_witness:
  \<open>stringify standard_registry (VObj [(''age'', VNum (Whole 27)), (''when'', VDate (Whole 1595838366018))])
     = Inr (Some ''{"age":"(00)r","when":"(03)kd48yjwi"}'',
            VObj [(''age'', VStr ''(00)r''), (''when'', VStr ''(03)kd48yjwi'')])
   \<and> 1 < length [(''age'', VNum (Whole 27)), (''when'', VDate (Whole 1595838366018))]
   \<and> [(''age'', VNum (Whole 27)), (''when'', VDate (Whole 1595838366018))] ! 1
        = (''when'', VDate (Whole 1595838366018))
   \<and> (\<exists>rp\<in>set (replacers standard_registry). matched_by standard_registry rp (VDate (Whole 1595838366018)))
   \<and> (\<exists>rp\<in>set (replacers standard_registry). \<exists>p kvs'.
           encoding_of standard_registry rp (VDate (Whole 1595838366018)) = Some p
           \<and> VObj [(''age'', VStr ''(00)r''), (''when'', VStr ''(03)kd48yjwi'')] = VObj kvs'
           \<and> length kvs' = length [(''age'', VNum (Whole 27)), (''when'', VDate (Whole 1595838366018))]
           \<and> kvs' ! 1 = (''when'', VStr (rp_tag rp @ p)))\<close>
proof -
  let ?kvs = "[(''age'', VNum (Whole 27)), (''when'', VDate (Whole 1595838366018))]"
  have h1: \<open>stringify standard_registry (VObj ?kvs)
     = Inr (Some ''{"age":"(00)r","when":"(03)kd48yjwi"}'',
            VObj [(''age'', VStr ''(00)r''), (''when'', VStr ''(03)kd48yjwi'')])\<close>
    by (simp add: encode_eval)
  have h2: "1 < length ?kvs" by simp
  have h3: "?kvs ! 1 = (''when'', VDate (Whole 1595838366018))" by simp
  have h4: "\<exists>rp\<in>set (replacers standard_registry). matched_by standard_registry rp (VDate (Whole 1595838366018))"
    by (simp add: std_registry matched_by_def call_replacer.simps std_checks date_replacer_def
        int_to_string_def digits_in.simps digit_char_def)
  from stringify_overwrites_property [OF h1 h2 h3 h4] h1 h2 h3 h4
  show ?thesis by simp
qed

section \<open>Properties of the standard codecs\<close>

subsection \<open>Digits in radix 36\<close>

lemma of_char_dquote: "((of_char ch :: nat) = 34) = (ch = dquote)"
proof -
  have "(of_char dquote :: nat) = 34" by simp
  then show ?thesis by (metis of_char_eq_iff)
qed

lemma of_char_backslash: "((of_char ch :: nat) = 92) = (ch = backslash)"
proof -
  have "(of_char backslash :: nat) = 92" by simp
  then show ?thesis by (metis of_char_eq_iff)
qed

lemma less_36_cases:
  "d < 36 \<Longrightarrow> d = 0 \<or> d = 1 \<or> d = 2 \<or> d = 3 \<or> d = 4 \<or> d = 5 \<or> d = 6 \<or> d = 7 \<or> d = 8
     \<or> d = 9 \<or> d = 10 \<or> d = 11 \<or> d = 12 \<or> d = 13 \<or> d = 14 \<or> d = 15 \<or> d = 16 \<or> d = 17
     \<or> d = 18 \<or> d = 19 \<or> d = 20 \<or> d = 21 \<or> d = 22 \<or> d = 23 \<or> d = 24 \<or> d = 25 \<or> d = 26
     \<or> d = 27 \<or> d = 28 \<or> d = 29 \<or> d = 30 \<or> d = 31 \<or> d = 32 \<or> d = 33 \<or> d = 34 \<or> d = (35::nat)"
  by presburger

lemma digit_char_props:
  assumes "d < 36"
  shows "digit_value (digit_char d) = Some d \<and> plain_char (digit_char d)
         \<and> \<not> is_js_space (digit_char d) \<and> digit_char d \<noteq> CHR ''-'' \<and> digit_char d \<noteq> CHR ''+''"
  using less_36_cases [OF assms]
  by (elim disjE) (simp_all add: digit_char_def digit_value_def plain_char_def is_js_space_def)

lemma quote_char_plain: "plain_char ch \<Longrightarrow> quote_char ch = [ch]"
  by (auto simp: quote_char_def plain_char_def Let_def of_char_dquote of_char_backslash)

lemma quote_plain: "list_all plain_char s \<Longrightarrow> quote s = dquote # s @ [dquote]"
  by (induction s) (auto simp: quote_def quote_char_plain)

lemma lex_string_plain:
  "list_all plain_char s \<Longrightarrow> lex_string (s @ dquote # rest) = Inr (s, rest)"
  by (induction s) (auto simp: plain_char_def)

lemma digits_in_small: "n < radix \<Longrightarrow> digits_in radix n = [digit_char n]"
  by (subst digits_in.simps) simp

lemma digits_in_big:
  "\<not> n < radix \<Longrightarrow> 2 \<le> radix \<Longrightarrow>
   digits_in radix n = digits_in radix (n div radix) @ [digit_char (n mod radix)]"
  by (subst digits_in.simps) simp

lemma digits_value_snoc:
  "digits_value radix acc (xs @ [c])
     = digits_value radix acc xs * radix + (case digit_value c of Some d \<Rightarrow> d | None \<Rightarrow> 0)"
  by (induction xs arbitrary: acc) auto

lemma digits_in_props:
  "2 \<le> radix \<Longrightarrow> radix \<le> 36 \<Longrightarrow>
     digits_in radix n \<noteq> [] \<and> list_all (is_digit_in radix) (digits_in radix n)
         \<and> list_all plain_char (digits_in radix n)
         \<and> digits_value radix 0 (digits_in radix n) = n
         \<and> \<not> is_js_space (hd (digits_in radix n)) \<and> hd (digits_in radix n) \<noteq> CHR ''-''
         \<and> hd (digits_in radix n) \<noteq> CHR ''+''"
proof (induction radix n rule: digits_in.induct)
  case (1 radix n)
  show ?case
  proof (cases "n < radix")
    case True
    then have "n < 36" using "1.prems" by simp
    from digit_char_props [OF this] True have "is_digit_in radix (digit_char n)"
      by (simp add: is_digit_in_def)
    with digit_char_props [OF \<open>n < 36\<close>] True show ?thesis
      by (simp add: digits_in_small)
  next
    case False
    have m: "n mod radix < 36" "n mod radix < radix" using "1.prems"
      by (auto intro: less_le_trans [OF mod_less_divisor])
    from "1.IH" False "1.prems"
    have ih: "digits_in radix (n div radix) \<noteq> [] \<and> list_all (is_digit_in radix) (digits_in radix (n div radix))
         \<and> list_all plain_char (digits_in radix (n div radix))
         \<and> digits_value radix 0 (digits_in radix (n div radix)) = n div radix
         \<and> \<not> is_js_space (hd (digits_in radix (n div radix))) \<and> hd (digits_in radix (n div radix)) \<noteq> CHR ''-''
         \<and> hd (digits_in radix (n div radix)) \<noteq> CHR ''+''"
      by simp
    from digit_char_props [OF m(1)] m(2) have "is_digit_in radix (digit_char (n mod radix))"
      by (simp add: is_digit_in_def)
    with digit_char_props [OF m(1)] ih False "1.prems" show ?thesis
      by (simp add: digits_in_big digits_value_snoc)
  qed
qed

lemma takeWhile_all: "list_all P xs \<Longrightarrow> takeWhile P xs = xs"
  by (induction xs) auto

lemma parse_int36_negative:
  assumes "ds \<noteq> []" "list_all (is_digit_in 36) ds" "safe_integer (int (digits_value 36 0 ds))"
  shows "parse_int36 (CHR ''-'' # ds) = Inr (Whole (- int (digits_value 36 0 ds)))"
proof -
  have tw: "takeWhile (is_digit_in 36) ds = ds" using assms(2) by (rule takeWhile_all)
  have sp: "\<not> is_js_space CHR ''-''" by (simp add: is_js_space_def)
  show ?thesis using assms(1,3) by (simp add: parse_int36_def Let_def tw sp)
qed

lemma parse_int36_positive:
  assumes "ds \<noteq> []" "list_all (is_digit_in 36) ds" "safe_integer (int (digits_value 36 0 ds))"
    and "\<not> is_js_space (hd ds)" "hd ds \<noteq> CHR ''-''" "hd ds \<noteq> CHR ''+''"
  shows "parse_int36 ds = Inr (Whole (int (digits_value 36 0 ds)))"
proof -
  have tw: "takeWhile (is_digit_in 36) ds = ds" using assms(2) by (rule takeWhile_all)
  have dw: "dropWhile is_js_space ds = ds" using assms(1,4) by (cases ds) auto
  show ?thesis using assms(1,3,5,6)
    by (simp add: parse_int36_def Let_def dw list.case_eq_if tw)
qed

lemma parse_int36_int_to_string:
  assumes "safe_integer n"
  shows "parse_int36 (int_to_string 36 n) = Inr (Whole n)"
proof -
  define ds where "ds = digits_in 36 (nat \<bar>n\<bar>)"
  have p: "ds \<noteq> []" "list_all (is_digit_in 36) ds" "digits_value 36 0 ds = nat \<bar>n\<bar>"
    "\<not> is_js_space (hd ds)" "hd ds \<noteq> CHR ''-''" "hd ds \<noteq> CHR ''+''"
    using digits_in_props [of 36 "nat \<bar>n\<bar>"] by (simp_all add: ds_def)
  have sf: "safe_integer (int (digits_value 36 0 ds))"
    using assms by (simp add: p(3) safe_integer_def)
  show ?thesis
  proof (cases "n < 0")
    case True
    then have "int_to_string 36 n = CHR ''-'' # ds"
      by (simp add: int_to_string_def ds_def)
    then show ?thesis using parse_int36_negative [OF p(1,2) sf] True by (simp add: p(3))
  next
    case False
    then have "int_to_string 36 n = ds" by (simp add: int_to_string_def ds_def)
    then show ?thesis using parse_int36_positive [OF p(1,2) sf p(4,5,6)] False by (simp add: p(3))
  qed
qed

lemma int_to_string_plain:
  "2 \<le> radix \<Longrightarrow> radix \<le> 36 \<Longrightarrow>
   int_to_string radix n \<noteq> [] \<and> list_all plain_char (int_to_string radix n)"
  using digits_in_props [of radix "nat n"] digits_in_props [of radix "nat (- n)"]
  by (simp add: int_to_string_def plain_char_def)

subsection \<open>The number and the Date codec on any value\<close>

lemma reviver_from_other: "string_bound v = 0 \<Longrightarrow> reviver_from reg rvs v = Inr v"
  by (induction rvs) (auto simp: reviver_from.simps split: jsval.splits)

lemma reviver_other: "string_bound v = 0 \<Longrightarrow> reviver reg name v = Inr v"
  by (simp add: reviver.simps reviver_from_other)

lemma replace_number_27:
  "replace_value standard_registry (replacers standard_registry) (VNum (Whole 27)) = Inr (VStr ''(00)r'')"
  by (simp add: std_registry replace_value.simps call_replacer.simps std_checks number_replacer_def
      int_to_string_def digits_in.simps digit_char_def)

lemma replace_date:
  "replace_value standard_registry (replacers standard_registry) (VDate (Whole ms))
     = Inr (VStr (''(03)'' @ int_to_string 36 ms))"
  using int_to_string_plain [of 36 ms]
  by (simp add: std_registry replace_value.simps call_replacer.simps std_checks date_replacer_def
      number_replacer_def bigint_replacer_def regexp_replacer_def)

lemma revive_date:
  assumes "\<bar>ms\<bar> \<le> 8640000000000000"
  shows "reviver standard_registry name (VStr (''(03)'' @ int_to_string 36 ms)) = Inr (VDate (Whole ms))"
proof -
  have "safe_integer ms" using assms by (simp add: safe_integer_def)
  from parse_int36_int_to_string [OF this] assms show ?thesis
    by (simp add: std_registry reviver.simps reviver_from.simps call_reviver.simps
        date_reviver_def parseInt36_def)
qed

lemma revive_number_27:
  "reviver standard_registry name (VStr ''(00)r'') = Inr (VNum (Whole 27))"
  by (simp add: std_registry reviver.simps reviver_from.simps call_reviver.simps
      number_reviver_def parseInt36_def parse_int36_def is_js_space_def is_digit_in_def digit_value_def
      safe_integer_def Let_def)

text \<open>
  C1.  After \<open>activateStandards()\<close> on a fresh registry, for every instant \<open>ms\<close> a
  Date can hold: \<open>stringify\<close> of the object \<open>{ age: 27, when: new Date(ms) }\<close> returns
  the text \<open>{"age":"(00)r","when":"(03)D"}\<close>, where \<open>D\<close> is \<open>ms\<close> in radix 36, and
  \<open>parse\<close> of that text returns an object whose \<open>age\<close> is the number 27 and whose
  \<open>when\<close> is the Date of \<open>ms\<close>.
\<close>

theorem age_when_scenario:
  assumes "\<bar>ms\<bar> \<le> 8640000000000000"
  shows \<open>stringify (snd (activateStandards empty_registry))
           (VObj [(''age'', VNum (Whole 27)), (''when'', VDate (Whole ms))])
         = Inr (Some (''{"age":"(00)r","when":"(03)'' @ int_to_string 36 ms @ ''"}''),
                VObj [(''age'', VStr ''(00)r''), (''when'', VStr (''(03)'' @ int_to_string 36 ms))])
       \<and> parse (snd (activateStandards empty_registry))
           (''{"age":"(00)r","when":"(03)'' @ int_to_string 36 ms @ ''"}'')
         = Inr (VObj [(''age'', VNum (Whole 27)), (''when'', VDate (Whole ms))])\<close>
proof -
  define W where "W = ''(03)'' @ int_to_string 36 ms"
  have pl: "list_all plain_char W"
    using int_to_string_plain [of 36 ms] by (simp add: W_def plain_char_def)
  have q3: "quote W = dquote # W @ [dquote]"
    using quote_plain [OF pl] by simp
  have rp: "replace_props standard_registry [(''age'', VNum (Whole 27)), (''when'', VDate (Whole ms))]
      = Inr [(''age'', VStr ''(00)r''), (''when'', VStr W)]"
    by (simp add: replace_props.simps replace_number_27 replace_date W_def)
  have sp: "serialize_props standard_registry [(''age'', VStr ''(00)r''), (''when'', VStr W)]
      = Inr ([quote ''age'' @ '':'' @ quote ''(00)r'', quote ''when'' @ '':'' @ quote W],
             [(''age'', VStr ''(00)r''), (''when'', VStr W)])"
    by (simp add: serialize_props.simps serialize_property_string)
  define jt where \<open>jt = ''{"age":"(00)r","when":"'' @ W @ ''"}''\<close>
  have s: "stringify standard_registry (VObj [(''age'', VNum (Whole 27)), (''when'', VDate (Whole ms))])
         = Inr (Some jt, VObj [(''age'', VStr ''(00)r''), (''when'', VStr W)])"
    by (simp add: stringify_object rp sp q3 jt_def) (simp add: quote_def quote_char_def)
  have ls: "lex_string (W @ dquote # rest) = Inr (W, rest)" for rest
    using pl by (rule lex_string_plain)
  have jp: "json_parse jt = Inr (VObj [(''age'', VStr ''(00)r''), (''when'', VStr W)])"
    by (simp add: jt_def json_eval ls)
  have rd: "reviver standard_registry ''when'' (VStr W) = Inr (VDate (Whole ms))"
    unfolding W_def using assms by (rule revive_date)
  have p: "parse standard_registry jt
         = Inr (VObj [(''age'', VNum (Whole 27)), (''when'', VDate (Whole ms))])"
    by (simp add: parse.simps jp internalize.simps internalize_props.simps revive_number_27 rd)
      (simp add: reviver_other)
  from s p show ?thesis by (simp add: activateStandards_fresh_snd jt_def W_def)
qed

theorem age_when_scenario_witness:
  \<open>\<bar>1595838366018\<bar> \<le> (8640000000000000::int)
   \<and> stringify (snd (activateStandards empty_registry))
           (VObj [(''age'', VNum (Whole 27)), (''when'', VDate (Whole 1595838366018))])
         = Inr (Some ''{"age":"(00)r","when":"(03)kd48yjwi"}'',
                VObj [(''age'', VStr ''(00)r''), (''when'', VStr ''(03)kd48yjwi'')])
   \<and> parse (snd (activateStandards empty_registry)) ''{"age":"(00)r","when":"(03)kd48yjwi"}''
         = Inr (VObj [(''age'', VNum (Whole 27)), (''when'', VDate (Whole 1595838366018))])\<close>
  using age_when_scenario [of 1595838366018]
  by (simp add: int_to_string_def digits_in.simps digit_char_def)

subsection \<open>Round trips\<close>










section \<open>A number is read back from its decimal text\<close>

subsection \<open>Decimal digits\<close>

lemma delimited_props:
  "delimited rest \<Longrightarrow> takeWhile (is_digit_in 10) rest = []
     \<and> \<not> (rest \<noteq> [] \<and> hd rest \<in> {CHR ''.'', CHR ''e'', CHR ''E''})"
  by (cases rest) (auto simp: delimited_def is_digit_in_def digit_value_def)

lemma decimal_digit_not_other:
  "is_digit_in 10 c \<Longrightarrow>
     c \<noteq> CHR ''{'' \<and> c \<noteq> CHR ''['' \<and> c \<noteq> dquote \<and> c \<noteq> CHR ''t'' \<and> c \<noteq> CHR ''f''
     \<and> c \<noteq> CHR ''n'' \<and> c \<noteq> CHR ''-'' \<and> c \<noteq> CHR '']'' \<and> \<not> is_json_space c"
  by (auto simp: is_digit_in_def digit_value_def is_json_space_def)

lemma digit_char_zero: "d < 36 \<Longrightarrow> digit_char d = CHR ''0'' \<Longrightarrow> d = 0"
  using digit_char_props [of d] by (simp add: digit_value_def)

lemma digits_in_leading_zero:
  "hd (digits_in 10 n) = CHR ''0'' \<Longrightarrow> digits_in 10 n = ''0''"
proof (induction "10::nat" n rule: digits_in.induct)
  case (1 n)
  show ?case
  proof (cases "n < 10")
    case True
    from digit_char_zero [of n] True "1.prems" show ?thesis
      by (simp add: digits_in_small)
  next
    case False
    have ne: "digits_in 10 (n div 10) \<noteq> []" using digits_in_props [of 10 "n div 10"] by simp
    have dv: "digits_value 10 0 (digits_in 10 (n div 10)) = n div 10"
      using digits_in_props [of 10 "n div 10"] by simp
    from "1.prems" False ne have "hd (digits_in 10 (n div 10)) = CHR ''0''"
      by (simp add: digits_in_big)
    with 1(1) False have "digits_in 10 (n div 10) = ''0''" by simp
    with dv have "n div 10 = 0" by (simp add: digit_value_def)
    with False show ?thesis by simp
  qed
qed

subsection \<open>The binary exponent of a fraction\<close>

lemma bit_length_0 [simp]: "bit_length 0 = 0"
  by (simp add: bit_length.simps)

lemma bit_length_pos: "0 < n \<Longrightarrow> 0 < bit_length n"
  by (subst bit_length.simps) simp

lemma bit_length_bounds:
  "0 < n \<Longrightarrow> 2 ^ (bit_length n - 1) \<le> n \<and> n < 2 ^ bit_length n"
proof (induction n rule: bit_length.induct)
  case (1 n)
  show ?case
  proof (cases "n div 2 = 0")
    case True
    with "1.prems" have "n = 1" by (simp add: div_eq_0_iff)
    then show ?thesis by (simp add: bit_length.simps)
  next
    case False
    then have h: "0 < n div 2" by simp
    with "1.IH" "1.prems" have ih: "2 ^ (bit_length (n div 2) - 1) \<le> n div 2" "n div 2 < 2 ^ bit_length (n div 2)"
      by simp_all
    have bl: "bit_length n = Suc (bit_length (n div 2))"
      using "1.prems" by (subst bit_length.simps) simp
    from bit_length_pos [OF h] obtain b where b: "bit_length (n div 2) = Suc b"
      by (cases "bit_length (n div 2)") auto
    from ih show ?thesis unfolding bl b by simp linarith
  qed
qed


lemma bit_length_le: "n < 2 ^ b \<Longrightarrow> bit_length n \<le> b"
proof (cases "n = 0")
  case False
  assume "n < 2 ^ b"
  moreover from bit_length_bounds [of n] False have "2 ^ (bit_length n - 1) \<le> n" by simp
  ultimately have "(2::nat) ^ (bit_length n - 1) < 2 ^ b" by linarith
  then have "bit_length n - 1 < b" by (simp only: power_strict_increasing_iff one_less_numeral_iff semiring_norm)
  then show ?thesis by simp
qed simp

lemma bit_length_real:
  assumes "0 < n"
  shows "2 powi (int (bit_length n) - 1) \<le> real n" and "real n < 2 powi int (bit_length n)"
proof -
  from bit_length_pos [OF assms] obtain b where b: "bit_length n = Suc b"
    by (cases "bit_length n") auto
  from bit_length_bounds [OF assms] have "2 ^ b \<le> n" "n < 2 ^ Suc b" by (simp_all add: b)
  then have r: "real (2 ^ b) \<le> real n" "real n < real (2 ^ Suc b)"
    by (simp_all only: of_nat_le_iff of_nat_less_iff)
  have "int (bit_length n) - 1 = int b" by (simp add: b)
  then have e1: "(2::real) powi (int (bit_length n) - 1) = 2 ^ b" by (simp only: power_int_of_nat)
  have e2: "(2::real) powi int (bit_length n) = 2 ^ Suc b" by (simp only: b power_int_of_nat)
  show "2 powi (int (bit_length n) - 1) \<le> real n" using r(1) unfolding e1 by simp
  show "real n < 2 powi int (bit_length n)" using r(2) unfolding e2 by simp
qed

lemma powi_floor_unique:
  assumes "(2::real) powi a \<le> r" "r < 2 powi (a + 1)" "2 powi b \<le> r" "r < 2 powi (b + 1)"
  shows "a = b"
proof -
  have "(2::real) powi a < 2 powi (b + 1)" using assms(1,4) by linarith
  then have 1: "a < b + 1"
    using power_int_increasing [of "b + 1" a "2::real"] by (cases "a < b + 1") auto
  have "(2::real) powi b < 2 powi (a + 1)" using assms(3,2) by linarith
  then have 2: "b < a + 1"
    using power_int_increasing [of "a + 1" b "2::real"] by (cases "b < a + 1") auto
  from 1 2 show ?thesis by simp
qed

lemma scaled_value:
  assumes "0 < q"
  shows "0 < snd (scaled p q e)"
    and "real (fst (scaled p q e)) / real (snd (scaled p q e)) = real p / real q / 2 powi e"
  using assms by (auto simp: scaled_def power_int_def field_simps)

lemma binary_exponent_bounds:
  assumes "0 < p" "0 < q"
  shows "2 powi binary_exponent p q \<le> real p / real q"
    and "real p / real q < 2 powi (binary_exponent p q + 1)"
proof -
  define d where "d = int (bit_length p) - int (bit_length q)"
  define r where "r = real p / real q"
  have q0: "0 < real q" using assms(2) by simp
  note bp = bit_length_real [OF assms(1)] and bq = bit_length_real [OF assms(2)]
  have two: "(2::real) \<noteq> 0" by simp
  have up: "r < 2 powi (d + 1)"
  proof -
    have "real p < 2 powi int (bit_length p)" by (rule bp(2))
    also have "\<dots> = 2 powi (d + 1 + (int (bit_length q) - 1))" by (simp add: d_def)
    also have "\<dots> = 2 powi (d + 1) * 2 powi (int (bit_length q) - 1)"
      by (rule power_int_add) simp
    also have "\<dots> \<le> 2 powi (d + 1) * real q"
      using bq(1) by (simp add: mult_left_mono)
    finally show ?thesis using q0 by (simp add: r_def field_simps)
  qed
  have lo: "2 powi (d - 1) < r"
  proof -
    have "2 powi (d - 1) * real q < 2 powi (d - 1) * 2 powi int (bit_length q)"
      using bq(2) by (simp add: mult_strict_left_mono)
    also have "\<dots> = 2 powi (d - 1 + int (bit_length q))"
      by (rule power_int_add [symmetric]) simp
    also have "\<dots> = 2 powi (int (bit_length p) - 1)" by (simp add: d_def)
    also have "\<dots> \<le> real p" by (rule bp(1))
    finally show ?thesis using q0 by (simp add: r_def field_simps)
  qed
  have test: "(snd (scaled p q d) \<le> fst (scaled p q d)) = (2 powi d \<le> r)"
  proof -
    have pos: "0 < real (snd (scaled p q d))" using scaled_value(1) [OF assms(2), of p d] by simp
    have "(snd (scaled p q d) \<le> fst (scaled p q d))
        = (1 \<le> real (fst (scaled p q d)) / real (snd (scaled p q d)))"
      using pos by (simp add: field_simps)
    also have "\<dots> = (1 \<le> r / 2 powi d)"
      by (simp add: scaled_value(2) [OF assms(2)] r_def)
    also have "\<dots> = (2 powi d \<le> r)"
      by (simp add: field_simps)
    finally show ?thesis .
  qed
  have "2 powi binary_exponent p q \<le> r \<and> r < 2 powi (binary_exponent p q + 1)"
  proof (cases "2 powi d \<le> r")
    case True
    then have "binary_exponent p q = d" using test by (simp add: binary_exponent_def d_def)
    with True up show ?thesis by simp
  next
    case False
    then have "binary_exponent p q = d - 1" using test by (simp add: binary_exponent_def d_def)
    with False lo show ?thesis by simp
  qed
  then show "2 powi binary_exponent p q \<le> real p / real q"
    and "real p / real q < 2 powi (binary_exponent p q + 1)"
    by (simp_all add: r_def)
qed

lemma binary_exponent_of:
  assumes "0 < p" "0 < q" "0 < M" "real p / real q = real M * 2 powi E"
  shows "binary_exponent p q = int (bit_length M) - 1 + E"
proof (rule powi_floor_unique)
  show "2 powi binary_exponent p q \<le> real p / real q"
    and "real p / real q < 2 powi (binary_exponent p q + 1)"
    by (rule binary_exponent_bounds [OF assms(1,2)])+
  have e: "(0::real) < 2 powi E" by (simp add: zero_less_power_int)
  show "2 powi (int (bit_length M) - 1 + E) \<le> real p / real q"
    using bit_length_real(1) [OF assms(3)] e
    by (simp add: assms(4) power_int_add mult_right_mono)
  show "real p / real q < 2 powi (int (bit_length M) - 1 + E + 1)"
    using bit_length_real(2) [OF assms(3)] e
    by (simp add: assms(4) power_int_add mult_strict_right_mono)
qed

lemma round_half_even_exact: "0 < b \<Longrightarrow> round_half_even (i * b) b = i"
  by (simp add: round_half_even_def)

lemma nearest_double_exact:
  assumes "0 < p" "0 < q" "real p / real q = real M * 2 powi E" "double_exponent p q \<le> E"
  shows "nearest_double p q = (M * 2 ^ nat (E - double_exponent p q), double_exponent p q)"
proof -
  define e where "e = double_exponent p q"
  define a where "a = fst (scaled p q e)"
  define b where "b = snd (scaled p q e)"
  have b0: "0 < b" unfolding b_def by (rule scaled_value(1) [OF assms(2)])
  have "real a / real b = real M * 2 powi E / 2 powi e"
    unfolding a_def b_def by (simp add: scaled_value(2) [OF assms(2)] assms(3))
  also have "\<dots> = real M * 2 powi (E - e)" by (simp add: power_int_diff)
  also have "\<dots> = real (M * 2 ^ nat (E - e))"
    using assms(4) by (simp add: power_int_def e_def)
  finally have "real a = real (M * 2 ^ nat (E - e) * b)" using b0 by (simp add: field_simps)
  then have "a = M * 2 ^ nat (E - e) * b" by (simp only: of_nat_eq_iff)
  then have "round_half_even a b = M * 2 ^ nat (E - e)" using b0 by (simp add: round_half_even_exact)
  then show ?thesis using assms(1) by (simp add: nearest_double_def a_def b_def e_def)
qed

lemma reduce_twos: "reduce (m * 2 ^ j) (k + j) = reduce m k"
  by (induction j) simp_all

lemma reduce_odd: "odd m \<Longrightarrow> 0 < k \<Longrightarrow> reduce m k = (m, k)"
  by (cases k) simp_all

subsection \<open>A double is the double nearest to itself\<close>

lemma signed_magnitude: "signed (n < 0) (nat \<bar>n\<bar>) = n"
  by (simp add: signed_def)

lemma finite_of_whole:
  assumes "0 < N" "N < 2 ^ 1024" "0 \<le> e" "m * 2 ^ nat e = N"
  shows "finite_of negative (m, e) = Some (Whole (signed negative N))"
proof -
  have "m \<noteq> 0" using assms(1,4) by (cases "m = 0") auto
  then show ?thesis using assms by (simp add: finite_of_def)
qed

lemma finite_of_reduced:
  assumes "0 < M" "e < 0" "nat (- e) = k + j"
  shows "finite_of negative (M * 2 ^ j, e)
     = (case reduce M k of (m, 0) \<Rightarrow> Some (Whole (signed negative m))
        | (m, Suc k') \<Rightarrow> Some (Frac (signed negative m) (Suc k')))"
  using assms by (simp add: finite_of_def reduce_twos)

lemma reads_exact_whole:
  assumes fin: "finite_number (Whole n)" and nz: "n \<noteq> 0" and p: "0 < p" and q: "0 < q"
    and val: "real p / real q = real (nat \<bar>n\<bar>)"
  shows "finite_of (n < 0) (nearest_double p q) = Some (Whole n)"
proof -
  define N where "N = nat \<bar>n\<bar>"
  have N0: "0 < N" using nz by (simp add: N_def)
  have N1: "N < 2 ^ 1024" using fin by (simp add: N_def nat_less_iff)
  have md: "N mod 2 ^ (bit_length N - 53) = 0" using fin by (simp add: N_def)
  have v0: "real p / real q = real N * 2 powi 0" using val by (simp add: N_def)
  have be: "binary_exponent p q = int (bit_length N) - 1" using binary_exponent_of [OF p q N0 v0] by simp
  have bl: "0 < bit_length N" by (rule bit_length_pos [OF N0])
  have de: "double_exponent p q = int (bit_length N) - 53"
    using bl by (simp add: double_exponent_def be)
  have sg: "signed (n < 0) N = n" unfolding N_def by (rule signed_magnitude)
  show ?thesis
  proof (cases "bit_length N \<le> 53")
    case True
    have le: "double_exponent p q \<le> 0" using True by (simp add: de)
    have nd: "nearest_double p q = (N * 2 ^ (53 - bit_length N), double_exponent p q)"
      using nearest_double_exact [OF p q v0 le] True by (simp add: de nat_diff_distrib')
    show ?thesis
    proof (cases "bit_length N = 53")
      case True
      then have "finite_of (n < 0) (N, 0) = Some (Whole (signed (n < 0) N))"
        using finite_of_whole [OF N0 N1, of 0 N] by simp
      then show ?thesis using True by (simp add: nd de sg)
    next
      case False
      with True have lt: "int (bit_length N) - 53 < 0" by simp
      have n: "nat (- (int (bit_length N) - 53)) = 0 + (53 - bit_length N)" using True by simp
      from finite_of_reduced [OF N0 lt n, of "n < 0"] show ?thesis by (simp add: nd de sg)
    qed
  next
    case False
    define E where "E = bit_length N - 53"
    define M where "M = N div 2 ^ E"
    have NM: "N = M * 2 ^ E" using md by (simp add: M_def E_def mod_eq_0_iff_dvd)
    have M0: "0 < M" using N0 NM by (cases "M = 0") auto
    have eE: "double_exponent p q = int E" using False by (simp add: de E_def)
    have v: "real p / real q = real M * 2 powi int E"
      by (simp only: v0 power_int_of_nat) (simp add: NM)
    have le: "double_exponent p q \<le> int E" by (simp add: eE)
    have nd: "nearest_double p q = (M, int E)"
      using nearest_double_exact [OF p q v le] by (simp add: eE)
    have "M * 2 ^ nat (int E) = N" by (simp add: NM)
    from finite_of_whole [OF N0 N1 _ this, of "n < 0"] show ?thesis by (simp add: nd sg)
  qed
qed

lemma reads_exact_frac:
  assumes fin: "finite_number (Frac m k)" and p: "0 < p" and q: "0 < q"
    and val: "real p / real q = real (nat \<bar>m\<bar>) / 2 ^ k"
  shows "finite_of (m < 0) (nearest_double p q) = Some (Frac m k)"
proof -
  define M where "M = nat \<bar>m\<bar>"
  have od: "odd M" and k0: "0 < k" and k1: "k \<le> 1074" and M1: "M < 2 ^ 53"
    using fin by (simp_all add: M_def nat_less_iff even_nat_iff)
  have M0: "0 < M" using od by (cases "M = 0") auto
  have v: "real p / real q = real M * 2 powi (- int k)"
    using val by (simp add: M_def power_int_minus field_simps)
  have be: "binary_exponent p q = int (bit_length M) - 1 + - int k"
    by (rule binary_exponent_of [OF p q M0 v])
  have bl: "0 < bit_length M" "bit_length M \<le> 53"
    using bit_length_pos [OF M0] bit_length_le [OF M1] by simp_all
  define e where "e = double_exponent p q"
  have e: "e = max (int (bit_length M) - 53 - int k) (- 1074)"
    by (simp add: e_def double_exponent_def be)
  have le: "e \<le> - int k" using bl k1 by (simp add: e)
  have lt: "e < 0" using le k0 by simp
  have nd: "nearest_double p q = (M * 2 ^ nat (- int k - e), e)"
    using nearest_double_exact [OF p q v] le by (simp add: e_def)
  have n: "nat (- e) = k + nat (- int k - e)" using le by simp
  have sg: "signed (m < 0) M = m" unfolding M_def by (rule signed_magnitude)
  obtain k' where k': "k = Suc k'" using k0 by (cases k) auto
  have "reduce M k = (M, Suc k')" using reduce_odd [OF od k0] by (simp add: k')
  with finite_of_reduced [OF M0 lt n, of "m < 0"] show ?thesis by (simp add: nd sg k')
qed

lemma finite_zero: "finite_number x \<Longrightarrow> magnitude x = 0 \<Longrightarrow> x = Whole 0"
  by (cases x) auto

lemma reads_exact:
  assumes "finite_number x" "0 < q" "real p / real q = real (magnitude x) / 2 ^ places x"
  shows "finite_of (is_negative x) (nearest_double p q) = Some x"
proof (cases "magnitude x = 0")
  case True
  then have "p = 0" using assms(2,3) by simp
  with finite_zero [OF assms(1) True] show ?thesis by (simp add: nearest_double_def finite_of_def)
next
  case False
  then have p: "0 < p" using assms(2,3) by (cases "p = 0") auto
  show ?thesis
  proof (cases x)
    case NaN
    with assms(1) show ?thesis by simp
  next
    case (Whole n)
    with False have "n \<noteq> 0" by auto
    from reads_exact_whole [OF _ this p assms(2)] assms(1,3) Whole show ?thesis by simp
  next
    case (Frac m k)
    from reads_exact_frac [OF _ p assms(2)] assms(1,3) Frac show ?thesis by simp
  qed
qed

subsection \<open>The shortest decimal of a number is read back as the number\<close>

lemma decimal_number_exact:
  assumes "finite_number x" "\<not> is_negative x"
    and "if 0 \<le> j then real (d * 10 ^ nat j) = real (magnitude x) / 2 ^ places x
         else real d / real (10 ^ nat (- j)) = real (magnitude x) / 2 ^ places x"
  shows "decimal_number False d j = Some x"
proof (cases "0 \<le> j")
  case True
  with assms(3) have "real (d * 10 ^ nat j) / real 1 = real (magnitude x) / 2 ^ places x" by simp
  from reads_exact [OF assms(1) _ this] assms(2) True show ?thesis by (simp add: decimal_number_def)
next
  case False
  with assms(3) have "real d / real (10 ^ nat (- j)) = real (magnitude x) / 2 ^ places x" by simp
  from reads_exact [OF assms(1) _ this] assms(2) False show ?thesis by (simp add: decimal_number_def)
qed

lemma two_dvd_ten: "k \<le> t \<Longrightarrow> (2::nat) ^ k dvd 10 ^ t"
proof -
  assume "k \<le> t"
  then have "(2::nat) ^ k dvd 2 ^ t" by (rule le_imp_power_dvd)
  moreover have "(10::nat) ^ t = 2 ^ t * 5 ^ t" by (simp add: power_mult_distrib [symmetric])
  ultimately show ?thesis by simp
qed

lemma written_out_reads:
  assumes "finite_number x" "\<not> is_negative x" "n + int (places x) \<le> int k"
  shows "reads_as x (lower_numeral (magnitude x) (2 ^ places x) n k, n - int k)"
proof -
  define p where "p = magnitude x"
  define t where "t = nat (int k - n)"
  have nk: "n \<le> int k" and tl: "places x \<le> t" using assms(3) by (simp_all add: t_def)
  from two_dvd_ten [OF tl] obtain c where c: "(10::nat) ^ t = 2 ^ places x * c" by (auto simp: dvd_def)
  have lo: "lower_numeral p (2 ^ places x) n k = p * c"
    using nk by (simp add: lower_numeral_def t_def [symmetric] c)
  have c0: "0 < c" using c by (cases "c = 0") auto
  have "decimal_number False (p * c) (n - int k) = Some x"
  proof (rule decimal_number_exact [OF assms(1,2)])
    show "if 0 \<le> n - int k then real (p * c * 10 ^ nat (n - int k)) = real (magnitude x) / 2 ^ places x
         else real (p * c) / real (10 ^ nat (- (n - int k))) = real (magnitude x) / 2 ^ places x"
    proof (cases "0 \<le> n - int k")
      case True
      with nk have e: "n = int k" by simp
      then have "t = 0" by (simp add: t_def)
      with tl c have "places x = 0" "c = 1" by simp_all
      with True show ?thesis by (simp add: p_def e)
    next
      case False
      have "nat (- (n - int k)) = t" by (simp add: t_def)
      then have "real (p * c) / real (10 ^ nat (- (n - int k))) = real (p * c) / real (2 ^ places x * c)"
        by (simp only: c)
      also have "\<dots> = real p / 2 ^ places x" using c0 by simp
      finally show ?thesis using False by (simp add: p_def)
    qed
  qed
  then show ?thesis by (simp add: reads_as_def lo [unfolded p_def] p_def)
qed

lemma shortest_from_reads:
  "finite_number x \<Longrightarrow> \<not> is_negative x \<Longrightarrow> reads_as x (shortest_from x n k)"
proof (induction x n k rule: shortest_from.induct)
  case (1 x n k)
  show ?case
    using "1.IH" "1.prems" written_out_reads [OF "1.prems", of n k]
    by (subst shortest_from.simps) auto
qed

lemma shortest_decimal_reads:
  "finite_number x \<Longrightarrow> \<not> is_negative x \<Longrightarrow>
     decimal_number False (fst (shortest_decimal x)) (snd (shortest_decimal x)) = Some x"
  using shortest_from_reads [of x "decimal_exponent (magnitude x) (2 ^ places x)" 1]
  by (simp add: shortest_decimal_def reads_as_def)

lemma decimal_number_zero: "decimal_number negative 0 j = Some (Whole 0)"
  by (simp add: decimal_number_def nearest_double_def finite_of_def)

lemma signed_negative: "signed True m = - signed False m"
  by (simp add: signed_def)

lemma finite_of_negative:
  "finite_of False me = Some (Whole n) \<Longrightarrow> finite_of True me = Some (Whole (- n))"
  "finite_of False me = Some (Frac m k) \<Longrightarrow> finite_of True me = Some (Frac (- m) k)"
  by (auto simp: finite_of_def signed_negative split: if_splits prod.splits nat.splits)

lemma decimal_number_negative:
  "decimal_number False d j = Some (Whole n) \<Longrightarrow> decimal_number True d j = Some (Whole (- n))"
  "decimal_number False d j = Some (Frac m k) \<Longrightarrow> decimal_number True d j = Some (Frac (- m) k)"
  by (simp_all add: decimal_number_def finite_of_negative)

subsection \<open>Reading the decimal text\<close>

lemma span_digits:
  assumes "list_all (is_digit_in 10) ds" "stops tail"
  shows "takeWhile (is_digit_in 10) (ds @ tail) = ds"
    and "dropWhile (is_digit_in 10) (ds @ tail) = tail"
proof -
  have t: "takeWhile (is_digit_in 10) tail = []" "dropWhile (is_digit_in 10) tail = tail"
    using assms(2) by (cases tail; simp add: stops_def)+
  from assms(1) show "takeWhile (is_digit_in 10) (ds @ tail) = ds"
    by (simp add: takeWhile_append2 list_all_iff t)
  from assms(1) show "dropWhile (is_digit_in 10) (ds @ tail) = tail"
    by (simp add: dropWhile_append2 list_all_iff t)
qed

lemma stops_chars:
  "stops (CHR ''.'' # t)" "stops (CHR ''e'' # t)" "stops (CHR ''+'' # t)" "stops (CHR ''-'' # t)"
  by (simp_all add: stops_def is_digit_in_def digit_value_def)

lemma delimited_stops:
  assumes "delimited rest"
  shows "stops rest" and "lex_fraction rest = Inr ([], rest)" and "lex_exponent rest = Inr (0, rest)"
  using assms
  by (cases rest; auto simp: delimited_def stops_def is_digit_in_def digit_value_def
        lex_fraction_def lex_exponent_def)+

lemma digits_value_acc:
  "digits_value 10 acc ds = acc * 10 ^ length ds + digits_value 10 0 ds"
proof (induction ds arbitrary: acc)
  case Nil
  show ?case by simp
next
  case (Cons c ds)
  define v where "v = (case digit_value c of None \<Rightarrow> 0 | Some d \<Rightarrow> d)"
  have "digits_value 10 acc (c # ds) = digits_value 10 (acc * 10 + v) ds" by (simp add: v_def)
  also have "\<dots> = (acc * 10 + v) * 10 ^ length ds + digits_value 10 0 ds" by (rule Cons.IH)
  finally have 1: "digits_value 10 acc (c # ds) = (acc * 10 + v) * 10 ^ length ds + digits_value 10 0 ds" .
  have "digits_value 10 0 (c # ds) = digits_value 10 v ds" by (simp add: v_def)
  also have "\<dots> = v * 10 ^ length ds + digits_value 10 0 ds" by (rule Cons.IH)
  finally have 2: "digits_value 10 0 (c # ds) = v * 10 ^ length ds + digits_value 10 0 ds" .
  show ?case unfolding 1 2 by (simp add: algebra_simps)
qed

lemma digits_value_fold:
  "digits_value 10 acc (a @ b) = digits_value 10 (digits_value 10 acc a) b"
  by (induction a arbitrary: acc) simp_all

lemma digits_value_append:
  "digits_value 10 0 (a @ b) = digits_value 10 0 a * 10 ^ length b + digits_value 10 0 b"
  unfolding digits_value_fold by (rule digits_value_acc)

lemma zeros_props:
  "list_all (is_digit_in 10) (zeros j)" "digits_value 10 0 (zeros j) = 0" "length (zeros j) = j"
proof -
  show "list_all (is_digit_in 10) (zeros j)"
    by (simp add: zeros_def list_all_iff is_digit_in_def digit_value_def)
  show "digits_value 10 0 (zeros j) = 0"
    unfolding zeros_def by (induction j) (simp_all add: digit_value_def)
  show "length (zeros j) = j" by (simp add: zeros_def)
qed

lemma numeral_digits:
  assumes "0 < s"
  shows "digits_in 10 s \<noteq> []" and "list_all (is_digit_in 10) (digits_in 10 s)"
    and "digits_value 10 0 (digits_in 10 s) = s" and "hd (digits_in 10 s) \<noteq> CHR ''0''"
proof -
  show "digits_in 10 s \<noteq> []" "list_all (is_digit_in 10) (digits_in 10 s)"
    "digits_value 10 0 (digits_in 10 s) = s"
    using digits_in_props [of 10 s] by simp_all
  show "hd (digits_in 10 s) \<noteq> CHR ''0''"
  proof
    assume "hd (digits_in 10 s) = CHR ''0''"
    then have "digits_in 10 s = ''0''" by (rule digits_in_leading_zero)
    then have "digits_value 10 0 (digits_in 10 s) = 0" by (simp add: digit_value_def)
    with assms digits_in_props [of 10 s] show False by simp
  qed
qed

lemma lex_integer_digits:
  assumes "ds \<noteq> []" "list_all (is_digit_in 10) ds" "hd ds \<noteq> CHR ''0''" "stops tail"
  shows "lex_integer (ds @ tail) = ds"
  using assms span_digits(1) [OF assms(2,4)] by (simp add: lex_integer_def)

lemma lex_fraction_digits:
  assumes "fs \<noteq> []" "list_all (is_digit_in 10) fs" "stops tail"
  shows "lex_fraction (CHR ''.'' # fs @ tail) = Inr (fs, tail)"
  using assms(1) span_digits [OF assms(2,3)] by (simp add: lex_fraction_def)

lemma lex_fraction_none: "lex_fraction (CHR ''e'' # t) = Inr ([], CHR ''e'' # t)"
  by (simp add: lex_fraction_def)

lemma exponent_digits:
  "digits_in 10 e \<noteq> []" "list_all (is_digit_in 10) (digits_in 10 e)"
  "digits_value 10 0 (digits_in 10 e) = e"
  using digits_in_props [of 10 e] by simp_all

lemma lex_exponent_text:
  assumes "stops rest"
  shows "lex_exponent (CHR ''e'' # exponent_text e @ rest) = Inr (e, rest)"
proof -
  define E where "E = digits_in 10 (nat \<bar>e\<bar>)"
  have E: "E \<noteq> []" "list_all (is_digit_in 10) E" "digits_value 10 0 E = nat \<bar>e\<bar>"
    unfolding E_def by (rule exponent_digits)+
  note sp = span_digits [OF E(2) assms]
  have d: "lex_exponent_digits negative (E @ rest) = Inr (signed negative (nat \<bar>e\<bar>), rest)" for negative
    using E(1) by (simp add: lex_exponent_digits_def sp E(3))
  show ?thesis
  proof (cases "0 \<le> e")
    case True
    then have "exponent_text e = CHR ''+'' # E" by (simp add: exponent_text_def E_def)
    then show ?thesis using True by (simp add: lex_exponent_def d signed_def)
  next
    case False
    then have "exponent_text e = CHR ''-'' # E" by (simp add: exponent_text_def E_def)
    then show ?thesis using False by (simp add: lex_exponent_def d signed_def)
  qed
qed

lemma lex_unsigned_parts:
  assumes "lex_integer body = ds" "ds \<noteq> []"
    and "lex_fraction (drop (length ds) body) = Inr (fs, r)" "lex_exponent r = Inr (x, rest)"
    and "digits_value 10 0 (ds @ fs) = d" "x - int (length fs) = j"
  shows "lex_unsigned negative body
     = (case decimal_number negative d j of None \<Rightarrow> Inl Unmodelled | Some n \<Rightarrow> Inr (n, rest))"
  using assms by (simp add: lex_unsigned_def)

lemma decimal_number_zeros:
  "0 \<le> j \<Longrightarrow> decimal_number negative (s * 10 ^ nat j) 0 = decimal_number negative s j"
  by (simp add: decimal_number_def)

lemma lex_decimal_format:
  assumes s: "0 < s" and dl: "delimited rest"
  shows "lex_unsigned negative (decimal_format (s, j) @ rest)
     = (case decimal_number negative s j of None \<Rightarrow> Inl Unmodelled | Some n \<Rightarrow> Inr (n, rest))"
proof -
  define D where "D = digits_in 10 s"
  define k where "k = int (length D)"
  define n where "n = j + k"
  note Dp = numeral_digits [OF s, folded D_def]
  note rs = delimited_stops [OF dl]
  have k0: "0 < k" using Dp(1) by (simp add: k_def)
  have fmt: "decimal_format (s, j) =
     (if k \<le> n \<and> n \<le> 21 then D @ zeros (nat (n - k))
      else if 0 < n \<and> n \<le> 21 then take (nat n) D @ CHR ''.'' # drop (nat n) D
      else if - 6 < n \<and> n \<le> 0 then CHR ''0'' # CHR ''.'' # zeros (nat (- n)) @ D
      else if k = 1 then D @ CHR ''e'' # exponent_text (n - 1)
      else hd D # CHR ''.'' # tl D @ CHR ''e'' # exponent_text (n - 1))"
    unfolding decimal_format_def Let_def D_def k_def n_def by simp
  consider (int) "k \<le> n" "n \<le> 21" | (point) "0 < n" "n \<le> 21" "n < k"
    | (small) "- 6 < n" "n \<le> 0" | (exp1) "k = 1" "21 < n \<or> n \<le> - 6"
    | (exp) "k \<noteq> 1" "21 < n \<or> n \<le> - 6"
    using k0 by linarith
  then show ?thesis
  proof cases
    case int
    then have j0: "0 \<le> j" by (simp add: n_def)
    have f: "decimal_format (s, j) = D @ zeros (nat j)"
      using int by (simp add: fmt) (simp add: n_def)
    have all: "list_all (is_digit_in 10) (D @ zeros (nat j))" using Dp(2) zeros_props(1) by simp
    have hd: "hd (D @ zeros (nat j)) \<noteq> CHR ''0''" using Dp(1,4) by simp
    have li: "lex_integer ((D @ zeros (nat j)) @ rest) = D @ zeros (nat j)"
      by (rule lex_integer_digits [OF _ all hd rs(1)]) (use Dp(1) in simp)
    have dv: "digits_value 10 0 ((D @ zeros (nat j)) @ []) = s * 10 ^ nat j"
      by (simp add: digits_value_append zeros_props Dp(3))
    have "lex_unsigned negative ((D @ zeros (nat j)) @ rest)
       = (case decimal_number negative (s * 10 ^ nat j) 0 of None \<Rightarrow> Inl Unmodelled | Some n \<Rightarrow> Inr (n, rest))"
      by (rule lex_unsigned_parts [OF li _ _ rs(3) dv]) (use Dp(1) rs(2) in simp_all)
    then show ?thesis by (simp add: f decimal_number_zeros [OF j0])
  next
    case point
    define a where "a = take (nat n) D"
    define b where "b = drop (nat n) D"
    have ab: "D = a @ b" by (simp add: a_def b_def)
    have a0: "a \<noteq> []" using point(1) Dp(1) by (simp add: a_def)
    have b0: "b \<noteq> []" using point(1,3) by (simp add: b_def k_def)
    have lb: "int (length b) = k - n" using point by (simp add: b_def k_def)
    have all: "list_all (is_digit_in 10) a" "list_all (is_digit_in 10) b"
      using Dp(2) by (simp_all add: ab)
    have hd: "hd a \<noteq> CHR ''0''" using Dp(4) a0 by (simp add: ab)
    have f: "decimal_format (s, j) = a @ CHR ''.'' # b"
      using point by (simp add: fmt a_def b_def)
    have li: "lex_integer (a @ CHR ''.'' # b @ rest) = a"
      by (rule lex_integer_digits [OF a0 all(1) hd stops_chars(1)])
    have lf: "lex_fraction (drop (length a) (a @ CHR ''.'' # b @ rest)) = Inr (b, rest)"
      using lex_fraction_digits [OF b0 all(2) rs(1)] by simp
    have dv: "digits_value 10 0 (a @ b) = s" using Dp(3) by (simp add: ab)
    have "lex_unsigned negative (a @ CHR ''.'' # b @ rest)
       = (case decimal_number negative s j of None \<Rightarrow> Inl Unmodelled | Some n \<Rightarrow> Inr (n, rest))"
      by (rule lex_unsigned_parts [OF li a0 lf rs(3) dv]) (simp add: lb n_def)
    then show ?thesis by (simp add: f)
  next
    case small
    define z where "z = zeros (nat (- n))"
    have f: "decimal_format (s, j) = CHR ''0'' # CHR ''.'' # z @ D"
      using small k0 by (simp add: fmt z_def)
    have li: "lex_integer (CHR ''0'' # CHR ''.'' # z @ D @ rest) = ''0''"
      by (simp add: lex_integer_def)
    have all: "list_all (is_digit_in 10) (z @ D)" using Dp(2) zeros_props(1) by (simp add: z_def)
    have lf: "lex_fraction (drop (length ''0'') (CHR ''0'' # CHR ''.'' # z @ D @ rest)) = Inr (z @ D, rest)"
      using lex_fraction_digits [OF _ all rs(1)] Dp(1) by simp
    have dv: "digits_value 10 0 (''0'' @ z @ D) = s"
      using digits_value_append [of z D] by (simp add: zeros_props z_def Dp(3) digit_value_def)
    have "lex_unsigned negative (CHR ''0'' # CHR ''.'' # z @ D @ rest)
       = (case decimal_number negative s j of None \<Rightarrow> Inl Unmodelled | Some n \<Rightarrow> Inr (n, rest))"
      by (rule lex_unsigned_parts [OF li _ lf rs(3) dv])
        (use small in \<open>simp_all add: z_def zeros_props k_def [symmetric] n_def\<close>)
    then show ?thesis by (simp add: f)
  next
    case exp1
    have f: "decimal_format (s, j) = D @ CHR ''e'' # exponent_text (n - 1)"
      using exp1 by (auto simp: fmt)
    have li: "lex_integer (D @ CHR ''e'' # exponent_text (n - 1) @ rest) = D"
      by (rule lex_integer_digits [OF Dp(1,2,4) stops_chars(2)])
    have lf: "lex_fraction (drop (length D) (D @ CHR ''e'' # exponent_text (n - 1) @ rest))
        = Inr ([], CHR ''e'' # exponent_text (n - 1) @ rest)"
      by (simp add: lex_fraction_none)
    have "lex_unsigned negative (D @ CHR ''e'' # exponent_text (n - 1) @ rest)
       = (case decimal_number negative s j of None \<Rightarrow> Inl Unmodelled | Some n \<Rightarrow> Inr (n, rest))"
      by (rule lex_unsigned_parts [OF li Dp(1) lf lex_exponent_text [OF rs(1)]])
        (use exp1 in \<open>simp_all add: Dp(3) n_def\<close>)
    then show ?thesis by (simp add: f)
  next
    case exp
    obtain c t where ct: "D = c # t" using Dp(1) by (cases D) auto
    have t0: "t \<noteq> []" using exp(1) by (auto simp: k_def ct)
    have lt: "int (length t) = k - 1" by (simp add: k_def ct)
    have all: "list_all (is_digit_in 10) [c]" "list_all (is_digit_in 10) t" using Dp(2) by (simp_all add: ct)
    have hd: "hd [c] \<noteq> CHR ''0''" using Dp(4) by (simp add: ct)
    have f: "decimal_format (s, j) = [c] @ CHR ''.'' # t @ CHR ''e'' # exponent_text (n - 1)"
      using exp k0 by (auto simp: fmt ct)
    have li: "lex_integer ([c] @ CHR ''.'' # t @ CHR ''e'' # exponent_text (n - 1) @ rest) = [c]"
      by (rule lex_integer_digits [OF _ all(1) hd stops_chars(1)]) simp
    have lf: "lex_fraction (drop (length [c]) ([c] @ CHR ''.'' # t @ CHR ''e'' # exponent_text (n - 1) @ rest))
        = Inr (t, CHR ''e'' # exponent_text (n - 1) @ rest)"
      using lex_fraction_digits [OF t0 all(2) stops_chars(2)] by simp
    have dv: "digits_value 10 0 ([c] @ t) = s" using Dp(3) by (simp add: ct)
    have "lex_unsigned negative ([c] @ CHR ''.'' # t @ CHR ''e'' # exponent_text (n - 1) @ rest)
       = (case decimal_number negative s j of None \<Rightarrow> Inl Unmodelled | Some n \<Rightarrow> Inr (n, rest))"
      by (rule lex_unsigned_parts [OF li _ lf lex_exponent_text [OF rs(1)] dv])
        (simp_all add: lt n_def)
    then show ?thesis by (simp add: f)
  qed
qed

lemma decimal_format_head:
  assumes "0 < s"
  shows "\<exists>c r. decimal_format (s, j) = c # r \<and> is_digit_in 10 c"
proof -
  define D where "D = digits_in 10 s"
  note Dp = numeral_digits [OF assms, folded D_def]
  obtain c t where ct: "D = c # t" using Dp(1) by (cases D) auto
  have c: "is_digit_in 10 c" using Dp(2) by (simp add: ct)
  have z: "is_digit_in 10 CHR ''0''" by (simp add: is_digit_in_def digit_value_def)
  have d: "digits_in 10 s = c # t" using ct by (simp add: D_def)
  show ?thesis
    using c z by (auto simp: decimal_format_def Let_def d take_Cons')
qed

lemma lex_number_digit:
  "is_digit_in 10 c \<Longrightarrow> lex_number (c # r) = lex_unsigned False (c # r)"
  using decimal_digit_not_other [of c] by (simp add: lex_number_def)

lemma lex_number_minus: "lex_number (CHR ''-'' # r) = lex_unsigned True r"
  by (simp add: lex_number_def)

lemma lex_safe_integer:
  assumes "finite_number (Whole n)" "delimited rest"
  shows "lex_number (int_to_string 10 n @ rest) = Inr (Whole n, rest)"
proof -
  define N where "N = nat \<bar>n\<bar>"
  define ds where "ds = digits_in 10 N"
  have p: "ds \<noteq> []" "list_all (is_digit_in 10) ds" "digits_value 10 0 ds = N"
    using digits_in_props [of 10 N] by (simp_all add: ds_def)
  note rs = delimited_stops [OF assms(2)]
  have li: "lex_integer (ds @ rest) = ds"
  proof (cases "hd ds = CHR ''0''")
    case True
    then have "ds = ''0''" unfolding ds_def by (rule digits_in_leading_zero)
    then show ?thesis by (simp add: lex_integer_def)
  next
    case False
    show ?thesis by (rule lex_integer_digits [OF p(1,2) False rs(1)])
  qed
  have dn: "decimal_number (n < 0) N 0 = Some (Whole n)"
    using reads_exact [OF assms(1), of 1 N] by (simp add: decimal_number_def N_def)
  have lu: "lex_unsigned (n < 0) (ds @ rest) = Inr (Whole n, rest)"
    using lex_unsigned_parts [OF li p(1) _ rs(3), of "[]" N 0 "n < 0"] rs(2) p(3) dn by simp
  obtain c r where cr: "ds = c # r" using p(1) by (cases ds) auto
  have c: "is_digit_in 10 c" using p(2) by (simp add: cr)
  show ?thesis
  proof (cases "n < 0")
    case True
    then have "int_to_string 10 n = CHR ''-'' # ds" by (simp add: int_to_string_def ds_def N_def)
    then show ?thesis using lu True by (simp add: lex_number_minus)
  next
    case False
    then have "int_to_string 10 n = ds" by (simp add: int_to_string_def ds_def N_def)
    then show ?thesis using lu False lex_number_digit [OF c, of "r @ rest"] by (simp add: cr)
  qed
qed

lemma lex_shortest:
  assumes fin: "finite_number x" and pos: "\<not> is_negative x" and nz: "x \<noteq> Whole 0"
    and dl: "delimited rest"
  shows "lex_unsigned False (decimal_format (shortest_decimal x) @ rest) = Inr (x, rest)"
    and "lex_number (decimal_format (shortest_decimal x) @ rest) = Inr (x, rest)"
    and "\<And>n. x = Whole n \<Longrightarrow>
           lex_number (CHR ''-'' # decimal_format (shortest_decimal x) @ rest) = Inr (Whole (- n), rest)"
    and "\<And>m k. x = Frac m k \<Longrightarrow>
           lex_number (CHR ''-'' # decimal_format (shortest_decimal x) @ rest) = Inr (Frac (- m) k, rest)"
proof -
  define s where "s = fst (shortest_decimal x)"
  define j where "j = snd (shortest_decimal x)"
  have sj: "shortest_decimal x = (s, j)" by (simp add: s_def j_def)
  have rd: "decimal_number False s j = Some x"
    unfolding s_def j_def by (rule shortest_decimal_reads [OF fin pos])
  have s0: "0 < s"
  proof (cases "s = 0")
    case True
    with rd decimal_number_zero [of False j] nz show ?thesis by simp
  qed simp
  note lx = lex_decimal_format [OF s0 dl, of _ j]
  show u: "lex_unsigned False (decimal_format (shortest_decimal x) @ rest) = Inr (x, rest)"
    by (simp add: sj lx rd)
  from decimal_format_head [OF s0, of j] obtain c r where cr: "decimal_format (s, j) = c # r"
    and c: "is_digit_in 10 c" by blast
  show "lex_number (decimal_format (shortest_decimal x) @ rest) = Inr (x, rest)"
    using u lex_number_digit [OF c, of "r @ rest"] by (simp add: sj cr)
  have m: "lex_number (CHR ''-'' # decimal_format (shortest_decimal x) @ rest)
      = (case decimal_number True s j of None \<Rightarrow> Inl Unmodelled | Some n \<Rightarrow> Inr (n, rest))"
    by (simp add: lex_number_minus sj lx)
  show "lex_number (CHR ''-'' # decimal_format (shortest_decimal x) @ rest) = Inr (Whole (- n), rest)"
    if "x = Whole n" for n
  proof -
    from rd that have "decimal_number True s j = Some (Whole (- n))"
      by (simp add: decimal_number_negative(1))
    then show ?thesis unfolding m by simp
  qed
  show "lex_number (CHR ''-'' # decimal_format (shortest_decimal x) @ rest) = Inr (Frac (- m) k, rest)"
    if "x = Frac m k" for m k
  proof -
    from rd that have "decimal_number True s j = Some (Frac (- m) k)"
      by (simp add: decimal_number_negative(2))
    then show ?thesis unfolding m by simp
  qed
qed

lemma finite_absolute: "finite_number x \<Longrightarrow> finite_number (absolute x) \<and> \<not> is_negative (absolute x)"
  by (cases x) auto

lemma lex_json_number:
  assumes "finite_number x" "delimited rest"
  shows "lex_number (json_number x @ rest) = Inr (x, rest)"
proof (cases x)
  case NaN
  with assms(1) show ?thesis by simp
next
  case (Whole n)
  show ?thesis
  proof (cases "safe_integer n")
    case True
    with lex_safe_integer [OF _ assms(2), of n] assms(1) Whole show ?thesis by simp
  next
    case False
    then have nz: "Whole \<bar>n\<bar> \<noteq> Whole 0" by (auto simp: safe_integer_def)
    from finite_absolute [OF assms(1)] Whole
    have fa: "finite_number (Whole \<bar>n\<bar>)" "\<not> is_negative (Whole \<bar>n\<bar>)" by simp_all
    note l = lex_shortest [OF fa nz assms(2)]
    show ?thesis
    proof (cases "n < 0")
      case True
      with l(3) [of "\<bar>n\<bar>"] False show ?thesis by (simp add: Whole)
    next
      case f: False
      with l(2) False show ?thesis by (simp add: Whole)
    qed
  qed
next
  case (Frac m k)
  have nz: "Frac \<bar>m\<bar> k \<noteq> Whole 0" by simp
  from finite_absolute [OF assms(1)] Frac
  have fa: "finite_number (Frac \<bar>m\<bar> k)" "\<not> is_negative (Frac \<bar>m\<bar> k)" by simp_all
  note l = lex_shortest [OF fa nz assms(2)]
  show ?thesis
  proof (cases "m < 0")
    case True
    with l(4) [of "\<bar>m\<bar>" k] show ?thesis by (simp add: Frac)
  next
    case False
    with l(2) show ?thesis by (simp add: Frac)
  qed
qed

lemma json_number_head:
  assumes "finite_number x"
  shows "\<exists>c r. json_number x = c # r \<and> (c = CHR ''-'' \<or> is_digit_in 10 c)"
proof -
  have h: "\<exists>c r. decimal_format (shortest_decimal y) = c # r \<and> is_digit_in 10 c"
    if "finite_number y" "\<not> is_negative y" "y \<noteq> Whole 0" for y
  proof -
    have "0 < fst (shortest_decimal y)"
    proof (cases "fst (shortest_decimal y) = 0")
      case True
      with shortest_decimal_reads [OF that(1,2)] decimal_number_zero [of False "snd (shortest_decimal y)"] that(3)
      show ?thesis by simp
    qed simp
    from decimal_format_head [OF this, of "snd (shortest_decimal y)"] show ?thesis by simp
  qed
  have i: "\<exists>c r. int_to_string 10 n = c # r \<and> (c = CHR ''-'' \<or> is_digit_in 10 c)" for n
  proof (cases "n < 0")
    case True
    then show ?thesis by (simp add: int_to_string_def)
  next
    case False
    have p: "digits_in 10 (nat n) \<noteq> []" "list_all (is_digit_in 10) (digits_in 10 (nat n))"
      using digits_in_props [of 10 "nat n"] by simp_all
    then obtain c r where cr: "digits_in 10 (nat n) = c # r" by (cases "digits_in 10 (nat n)") auto
    with p(2) have "is_digit_in 10 c" by simp
    with cr False show ?thesis by (simp add: int_to_string_def)
  qed
  show ?thesis
  proof (cases x)
    case NaN
    with assms show ?thesis by simp
  next
    case (Whole n)
    show ?thesis
    proof (cases "safe_integer n")
      case True
      with i [of n] Whole show ?thesis by simp
    next
      case False
      then have nz: "Whole \<bar>n\<bar> \<noteq> Whole 0" by (auto simp: safe_integer_def)
      from finite_absolute [OF assms] Whole
      have fa: "finite_number (Whole \<bar>n\<bar>)" "\<not> is_negative (Whole \<bar>n\<bar>)" by simp_all
      from h [OF fa nz] False show ?thesis by (cases "n < 0") (auto simp: Whole)
    qed
  next
    case (Frac m k)
    from finite_absolute [OF assms] Frac
    have fa: "finite_number (Frac \<bar>m\<bar> k)" "\<not> is_negative (Frac \<bar>m\<bar> k)" by simp_all
    from h [OF fa] show ?thesis by (cases "m < 0") (auto simp: Frac)
  qed
qed

subsection \<open>Numbers at hand\<close>

lemma finite_safe: "safe_integer n \<Longrightarrow> finite_number (Whole n)"
proof -
  assume s: "safe_integer n"
  define N where "N = nat \<bar>n\<bar>"
  have le: "N \<le> 2 ^ 53" using s by (simp add: N_def safe_integer_def)
  have big: "(2::int) ^ 53 < 2 ^ 1024" by simp
  have m: "N mod 2 ^ (bit_length N - 53) = 0"
  proof (cases "N < 2 ^ 53")
    case True
    from bit_length_le [OF this] show ?thesis by simp
  next
    case False
    with le have e: "N = 2 ^ 53" by simp
    have "N < 2 ^ 54" by (simp add: e)
    from bit_length_le [OF this] have "bit_length N - 53 \<le> 1" by simp
    then consider "bit_length N - 53 = 0" | "bit_length N - 53 = 1" by linarith
    then show ?thesis
    proof cases
      case 1
      then show ?thesis by simp
    next
      case 2
      have "N mod 2 = 0" by (simp add: e)
      then show ?thesis by (simp add: 2)
    qed
  qed
  have "\<bar>n\<bar> \<le> 2 ^ 53" using s by (simp add: safe_integer_def)
  with big have "\<bar>n\<bar> < 2 ^ 1024" by linarith
  with m show ?thesis by (simp add: N_def)
qed

lemma bit_length_numeral:
  "bit_length (numeral k) = Suc (bit_length (numeral k div 2))"
  "bit_length 1 = 1" "bit_length (Suc 0) = 1"
  by (subst bit_length.simps, simp)+

lemma radix_fraction_fuel:
  "radix_fraction (numeral k) radix fraction delta ds =
     (let shifted = times_radix radix fraction;
          delta' = times_radix radix delta;
          digit = fst shifted div snd shifted;
          left = minus_digit shifted digit
      in if (below (1, 2) left \<or> (2 * fst left = snd left \<and> odd digit))
            \<and> below (1, 1) (double_sum left delta')
         then round_up radix (digit # ds)
         else if below left delta' then Some (digit # ds)
         else radix_fraction (pred_numeral k) radix left delta' (digit # ds))"
  by (simp only: numeral_eq_Suc radix_fraction.simps)

lemmas double_eval = rounded_def nearest_double_def double_exponent_def binary_exponent_def
  scaled_def bit_length_numeral round_half_even_def below_def times_radix_def minus_digit_def
  double_sum_def

lemma radix_delta_3_1: "radix_delta 3 1 = (2 ^ 52, 2 ^ 105)"
  by (simp add: radix_delta_def Let_def double_eval)


lemma s1: "times_radix 36 (1, 2) = (18 * 2 ^ 48, 2 ^ 48)"
  by (simp add: double_eval)

lemma s2: "times_radix 36 (2 ^ 52, 2 ^ 105) = (9 * 2 ^ 49, 2 ^ 100)"
  by (simp add: double_eval)

lemma s3: "minus_digit (18 * 2 ^ 48, 2 ^ 48) 18 = (0, 1)"
  by (simp add: double_eval)


lemma rf: "radix_fraction 1100 36 (1, 2) (2 ^ 52, 2 ^ 105) [] = Some [18]"
  by (subst radix_fraction_fuel)
    (simp add: Let_def s1 [simplified] s2 [simplified] s3 [simplified] below_def)

lemma one_and_a_half: "radix_text 36 3 1 = ''1.i''"
  using rf
  by (simp add: radix_text_def radix_delta_3_1 [simplified] below_def
      digits_in.simps digit_char_def)


section \<open>Round trips of JSON-native values\<close>

subsection \<open>A quoted string is read back\<close>

lemma of_char_code: "(of_char ch :: nat) = of_char ch' \<Longrightarrow> ch = ch'"
  by simp

lemma quote_char_lex:
  "lex_string (quote_char ch @ s) =
     (case lex_string s of Inl e \<Rightarrow> Inl e | Inr (str, rest) \<Rightarrow> Inr (ch # str, rest))"
proof -
  define c where "c = (of_char ch :: nat)"
  have ch: "ch = char_of c" by (simp add: c_def)
  have c256: "c < 256" by (simp add: c_def)
  consider "c = 8" | "c = 9" | "c = 10" | "c = 12" | "c = 13" | "c = 34" | "c = 92"
    | "c < 32" "c \<notin> {8, 9, 10, 12, 13}" | "32 \<le> c" "c \<noteq> 34" "c \<noteq> 92"
    by force
  then show ?thesis
  proof cases
    case 1
    have "ch = CHR 0x08" by (rule of_char_code) (use 1 in \<open>simp add: c_def\<close>)
    then show ?thesis by (auto simp: quote_char_def split: sum.splits)
  next
    case 2
    have "ch = CHR 0x09" by (rule of_char_code) (use 2 in \<open>simp add: c_def\<close>)
    then show ?thesis by (auto simp: quote_char_def split: sum.splits)
  next
    case 3
    have "ch = CHR 0x0A" by (rule of_char_code) (use 3 in \<open>simp add: c_def\<close>)
    then show ?thesis by (auto simp: quote_char_def split: sum.splits)
  next
    case 4
    have "ch = CHR 0x0C" by (rule of_char_code) (use 4 in \<open>simp add: c_def\<close>)
    then show ?thesis by (auto simp: quote_char_def split: sum.splits)
  next
    case 5
    have "ch = CHR 0x0D" by (rule of_char_code) (use 5 in \<open>simp add: c_def\<close>)
    then show ?thesis by (auto simp: quote_char_def split: sum.splits)
  next
    case 6
    have "ch = dquote" by (rule of_char_code) (use 6 in \<open>simp add: c_def\<close>)
    then show ?thesis by (auto simp: quote_char_def split: sum.splits)
  next
    case 7
    have "ch = backslash" by (rule of_char_code) (use 7 in \<open>simp add: c_def\<close>)
    then show ?thesis by (auto simp: quote_char_def split: sum.splits)
  next
    case 8
    have d: "c div 16 < 36" "c mod 16 < 36" "c div 16 < 16" "c mod 16 < 16" using 8 by auto
    have dv: "digit_value (digit_char (c div 16)) = Some (c div 16)"
      "digit_value (digit_char (c mod 16)) = Some (c mod 16)"
      using digit_char_props [OF d(1)] digit_char_props [OF d(2)] by simp_all
    have qc: "quote_char ch = [backslash, CHR ''u'', CHR ''0'', CHR ''0'',
                              digit_char (c div 16), digit_char (c mod 16)]"
      using 8 by (simp add: quote_char_def c_def [symmetric])
    have z: "digit_value CHR ''0'' = Some 0" by (simp add: digit_value_def)
    have hex: "is_digit_in 16 CHR ''0''" "is_digit_in 16 (digit_char (c div 16))"
      "is_digit_in 16 (digit_char (c mod 16))"
      using dv z d(3,4) by (simp_all add: is_digit_in_def)
    have cc: "c div 16 * 16 + c mod 16 = c" by simp
    show ?thesis
      unfolding qc using dv z hex c256 ch cc
      by (simp split: sum.splits)
  next
    case 9
    have "ch \<noteq> dquote" "ch \<noteq> backslash" using 9 by (auto simp: c_def)
    then show ?thesis using 9 by (cases s) (auto simp: quote_char_def c_def)
  qed
qed


lemma lex_string_quoted:
  "lex_string (concat (map quote_char s) @ dquote # rest) = Inr (s, rest)"
  by (induction s) (simp_all add: quote_char_lex)

lemma parse_value_quote:
  "parse_value (quote s @ rest) = Inr (VStr s, rest)"
  using lex_string_quoted [of s rest]
  by (subst parse_value.simps) (simp add: quote_def skip_ws_def is_json_space_def)

subsection \<open>A number is read back\<close>

lemma skip_ws_head: "\<not> is_json_space c \<Longrightarrow> skip_ws (c # r) = c # r"
  by (simp add: skip_ws_def)

lemma parse_value_number:
  assumes "finite_number n" "delimited rest"
  shows "parse_value (json_number n @ rest) = Inr (VNum n, rest)"
proof -
  obtain c r where cr: "json_number n = c # r" and hd: "c = CHR ''-'' \<or> is_digit_in 10 c"
    using json_number_head [OF assms(1)] by blast
  have props: "c \<noteq> CHR ''{'' \<and> c \<noteq> CHR ''['' \<and> c \<noteq> dquote \<and> c \<noteq> CHR ''t'' \<and> c \<noteq> CHR ''f''
     \<and> c \<noteq> CHR ''n'' \<and> \<not> is_json_space c"
    using hd decimal_digit_not_other [of c] by (auto simp: is_json_space_def)
  have sk: "skip_ws (json_number n @ rest) = c # (r @ rest)"
    using props by (simp add: cr skip_ws_head)
  have ln: "lex_number (c # (r @ rest)) = Inr (n, rest)"
    using lex_json_number [OF assms] by (simp add: cr)
  show ?thesis
    using props hd ln by (simp add: parse_value_scalar [OF sk])
qed

lemma json_text_head:
  "json_native u \<Longrightarrow> \<exists>c r. json_text u = c # r \<and> \<not> is_json_space c \<and> c \<noteq> CHR '']''"
proof (cases u)
  case (VNum n)
  assume "json_native u"
  then have "finite_number n" using VNum by simp
  then obtain c r where cr: "json_number n = c # r" and hd: "c = CHR ''-'' \<or> is_digit_in 10 c"
    using json_number_head [of n] by blast
  have "\<not> is_json_space c \<and> c \<noteq> CHR '']''"
    using hd decimal_digit_not_other [of c] by (auto simp: is_json_space_def)
  then show ?thesis using VNum cr by simp
qed (auto simp: is_json_space_def quote_def)

subsection \<open>The text of a tree of JSON values is read back as the tree\<close>

lemma join_commas_Cons:
  "join_commas (t # ts) = t @ (case ts of [] \<Rightarrow> [] | u # us \<Rightarrow> CHR '','' # join_commas ts)"
  by (cases ts) simp_all

lemma join_commas_more: "ts \<noteq> [] \<Longrightarrow> join_commas (t # ts) = t @ CHR '','' # join_commas ts"
  by (cases ts) simp_all

lemma json_members_empty: "(json_members kvs = []) = (kvs = [])"
  by (cases kvs) auto

lemma json_texts_empty: "(json_texts xs = []) = (xs = [])"
  by (cases xs) auto

lemma parse_elements_last:
  assumes "parse_value (T @ CHR '']'' # rest) = Inr (x, CHR '']'' # rest)"
  shows "parse_elements (T @ CHR '']'' # rest) = Inr ([x], rest)"
proof -
  have "length (CHR '']'' # rest) < length (T @ CHR '']'' # rest) \<or> T = []" by (cases T) auto
  moreover have "T \<noteq> []"
  proof
    assume "T = []"
    with assms have "parse_value (CHR '']'' # rest) = Inr (x, CHR '']'' # rest)" by simp
    then show False
      by (subst (asm) parse_value.simps)
        (simp add: skip_ws_head is_json_space_def is_digit_in_def digit_value_def)
  qed
  ultimately have len: "length (CHR '']'' # rest) < length (T @ CHR '']'' # rest)" by blast
  show ?thesis
    using len by (subst parse_elements.simps) (simp add: assms skip_ws_head is_json_space_def)
qed

lemma parse_elements_more:
  assumes "parse_value (T @ CHR '','' # R) = Inr (x, CHR '','' # R)" "T \<noteq> []"
    and "parse_elements R = Inr (xs, rest)"
  shows "parse_elements (T @ CHR '','' # R) = Inr (x # xs, rest)"
proof -
  have len: "length (CHR '','' # R) < length (T @ CHR '','' # R)" using assms(2) by (cases T) auto
  show ?thesis
    using len by (subst parse_elements.simps) (simp add: assms skip_ws_head is_json_space_def)
qed

lemma parse_members_last:
  assumes "parse_value (T @ CHR ''}'' # rest) = Inr (v, CHR ''}'' # rest)" "T \<noteq> []"
  shows "parse_members acc (quote k @ CHR '':'' # T @ CHR ''}'' # rest) = Inr (obj_put acc k v, rest)"
proof -
  have len: "length (CHR ''}'' # rest) < length (T @ CHR ''}'' # rest)" using assms(2) by (cases T) auto
  have sk: "skip_ws (quote k @ CHR '':'' # T @ CHR ''}'' # rest)
      = dquote # (concat (map quote_char k) @ dquote # CHR '':'' # T @ CHR ''}'' # rest)"
    by (simp add: quote_def skip_ws_head is_json_space_def)
  show ?thesis
    using len
    by (subst parse_members.simps)
      (simp add: sk lex_string_quoted assms skip_ws_head is_json_space_def)
qed

lemma parse_members_more:
  assumes "parse_value (T @ CHR '','' # R) = Inr (v, CHR '','' # R)" "T \<noteq> []"
  shows "parse_members acc (quote k @ CHR '':'' # T @ CHR '','' # R) = parse_members (obj_put acc k v) R"
proof -
  have len: "length (CHR '','' # R) < length (T @ CHR '','' # R)" using assms(2) by (cases T) auto
  have sk: "skip_ws (quote k @ CHR '':'' # T @ CHR '','' # R)
      = dquote # (concat (map quote_char k) @ dquote # CHR '':'' # T @ CHR '','' # R)"
    by (simp add: quote_def skip_ws_head is_json_space_def)
  show ?thesis
    using len
    by (subst parse_members.simps)
      (simp add: sk lex_string_quoted assms skip_ws_head is_json_space_def)
qed

lemma parse_value_array_text:
  assumes "xs = [] \<Longrightarrow> T = []"
    and "xs \<noteq> [] \<Longrightarrow> \<exists>c r. T = c # r \<and> \<not> is_json_space c \<and> c \<noteq> CHR '']''"
    and "xs \<noteq> [] \<Longrightarrow> parse_elements (T @ CHR '']'' # rest) = Inr (xs, rest)"
  shows "parse_value (CHR ''['' # T @ CHR '']'' # rest) = Inr (VArr xs, rest)"
proof -
  have sk: "skip_ws (CHR ''['' # T @ CHR '']'' # rest) = CHR ''['' # (T @ CHR '']'' # rest)"
    by (simp add: skip_ws_head is_json_space_def)
  show ?thesis
  proof (cases "xs = []")
    case True
    with assms(1) have "T = []" by simp
    with True show ?thesis
      by (subst parse_value.simps) (simp add: skip_ws_head is_json_space_def)
  next
    case False
    from assms(2) [OF False] obtain c r where t: "T = c # r" "\<not> is_json_space c" "c \<noteq> CHR '']''"
      by blast
    have sk2: "skip_ws (T @ CHR '']'' # rest) = c # (r @ CHR '']'' # rest)"
      using t by (simp add: skip_ws_head)
    show ?thesis
      using t(3) assms(3) [OF False] by (simp add: parse_value_arr [OF sk] sk2)
  qed
qed

lemma parse_value_object_text:
  assumes "kvs = [] \<Longrightarrow> T = [] \<and> res = []"
    and "kvs \<noteq> [] \<Longrightarrow> \<exists>r. T = dquote # r"
    and "kvs \<noteq> [] \<Longrightarrow> parse_members [] (T @ CHR ''}'' # rest) = Inr (res, rest)"
  shows "parse_value (CHR ''{'' # T @ CHR ''}'' # rest) = Inr (VObj res, rest)"
proof -
  have sk: "skip_ws (CHR ''{'' # T @ CHR ''}'' # rest) = CHR ''{'' # (T @ CHR ''}'' # rest)"
    by (simp add: skip_ws_head is_json_space_def)
  show ?thesis
  proof (cases "kvs = []")
    case True
    with assms(1) have "T = []" "res = []" by simp_all
    then show ?thesis
      by (subst parse_value.simps) (simp add: skip_ws_head is_json_space_def)
  next
    case False
    from assms(2) [OF False] obtain r where t: "T = dquote # r" by blast
    have sk2: "skip_ws (T @ CHR ''}'' # rest) = dquote # (r @ CHR ''}'' # rest)"
      using t by (simp add: skip_ws_head is_json_space_def)
    show ?thesis
      using assms(3) [OF False] by (simp add: parse_value_obj [OF sk] sk2)
  qed
qed

lemma parse_value_literals:
  "parse_value (''null'' @ rest) = Inr (VNull, rest)"
  "parse_value (''true'' @ rest) = Inr (VBool True, rest)"
  "parse_value (''false'' @ rest) = Inr (VBool False, rest)"
  by (subst parse_value.simps, simp add: skip_ws_head is_json_space_def)+

lemma json_texts_head:
  "json_native_list xs \<Longrightarrow> xs \<noteq> [] \<Longrightarrow>
     \<exists>c r. join_commas (json_texts xs) = c # r \<and> \<not> is_json_space c \<and> c \<noteq> CHR '']''"
proof (cases xs)
  case (Cons x xs')
  assume "json_native_list xs"
  then have "json_native x" using Cons by simp
  from json_text_head [OF this] show ?thesis using Cons by (auto simp: join_commas_Cons)
qed simp

lemma json_members_head:
  "kvs \<noteq> [] \<Longrightarrow> \<exists>r. join_commas (json_members kvs) = dquote # r"
proof (cases kvs)
  case (Cons kv kvs')
  obtain k v where "kv = (k, v)" by (cases kv)
  with Cons show ?thesis by (simp add: join_commas_Cons quote_def)
qed simp

lemma json_text_parse:
  "json_native u \<longrightarrow> (\<forall>rest. delimited rest \<longrightarrow> parse_value (json_text u @ rest) = Inr (u, rest))"
  "json_native_list xs \<longrightarrow> xs \<noteq> [] \<longrightarrow>
     (\<forall>rest. parse_elements (join_commas (json_texts xs) @ CHR '']'' # rest) = Inr (xs, rest))"
  "json_native_props kvs \<longrightarrow> kvs \<noteq> [] \<longrightarrow>
     (\<forall>acc rest. parse_members acc (join_commas (json_members kvs) @ CHR ''}'' # rest)
        = Inr (foldl (\<lambda>acc (k, v). obj_put acc k v) acc kvs, rest))"
proof (induction u and xs and kvs rule: json_native_json_native_list_json_native_props.induct)
  case 1
  show ?case using parse_value_literals(1) by simp
next
  case (2 b)
  show ?case using parse_value_literals(2,3) by simp
next
  case (3 n)
  show ?case using parse_value_number [of n] by simp
next
  case (4 s)
  show ?case using parse_value_quote [of s] by simp
next
  case (5 xs)
  show ?case
  proof (intro impI allI)
    fix rest
    assume nat: "json_native (VArr xs)"
    then have nl: "json_native_list xs" by simp
    have "parse_value (CHR ''['' # join_commas (json_texts xs) @ CHR '']'' # rest) = Inr (VArr xs, rest)"
    proof (rule parse_value_array_text)
      show "xs = [] \<Longrightarrow> join_commas (json_texts xs) = []" by simp
      show "xs \<noteq> [] \<Longrightarrow> \<exists>c r. join_commas (json_texts xs) = c # r \<and> \<not> is_json_space c \<and> c \<noteq> CHR '']''"
        using json_texts_head [OF nl] by simp
      show "xs \<noteq> [] \<Longrightarrow> parse_elements (join_commas (json_texts xs) @ CHR '']'' # rest) = Inr (xs, rest)"
        using 5 nl by simp
    qed
    then show "parse_value (json_text (VArr xs) @ rest) = Inr (VArr xs, rest)" by simp
  qed
next
  case (6 kvs)
  show ?case
  proof (intro impI allI)
    fix rest
    assume nat: "json_native (VObj kvs)"
    then have nl: "json_native_props kvs" and eo: "foldl (\<lambda>acc (k, v). obj_put acc k v) [] kvs = kvs"
      by (simp_all add: enumeration_order_def)
    have "parse_value (CHR ''{'' # join_commas (json_members kvs) @ CHR ''}'' # rest) = Inr (VObj kvs, rest)"
    proof (rule parse_value_object_text)
      show "kvs = [] \<Longrightarrow> join_commas (json_members kvs) = [] \<and> kvs = []" by simp
      show "kvs \<noteq> [] \<Longrightarrow> \<exists>r. join_commas (json_members kvs) = dquote # r"
        by (rule json_members_head)
      show "kvs \<noteq> [] \<Longrightarrow> parse_members [] (join_commas (json_members kvs) @ CHR ''}'' # rest) = Inr (kvs, rest)"
        using 6 nl eo by simp
    qed
    then show "parse_value (json_text (VObj kvs) @ rest) = Inr (VObj kvs, rest)" by simp
  qed
next
  case (14 x xs)
  show ?case
  proof (intro impI allI)
    fix rest
    assume nat: "json_native_list (x # xs)"
    then have nx: "json_native x" and nl: "json_native_list xs" by simp_all
    from json_text_head [OF nx] have ne: "json_text x \<noteq> []" by auto
    show "parse_elements (join_commas (json_texts (x # xs)) @ CHR '']'' # rest) = Inr (x # xs, rest)"
    proof (cases xs)
      case Nil
      have "parse_value (json_text x @ CHR '']'' # rest) = Inr (x, CHR '']'' # rest)"
        using 14(1) nx by (simp add: delimited_def)
      from parse_elements_last [OF this] show ?thesis using Nil by simp
    next
      case (Cons y ys)
      then have nn: "xs \<noteq> []" by simp
      define R where "R = join_commas (json_texts xs) @ CHR '']'' # rest"
      have pv: "parse_value (json_text x @ CHR '','' # R) = Inr (x, CHR '','' # R)"
        using 14(1) nx by (simp add: delimited_def)
      have pe: "parse_elements R = Inr (xs, rest)" using 14(2) nl nn by (simp add: R_def)
      have jc: "join_commas (json_texts (x # xs)) @ CHR '']'' # rest = json_text x @ CHR '','' # R"
        using nn by (simp add: join_commas_more json_texts_empty R_def)
      show ?thesis unfolding jc by (rule parse_elements_more [OF pv ne pe])
    qed
  qed
next
  case (16 k v kvs)
  show ?case
  proof (intro impI allI)
    fix acc rest
    assume nat: "json_native_props ((k, v) # kvs)"
    then have nx: "json_native v" and nl: "json_native_props kvs" by simp_all
    from json_text_head [OF nx] have ne: "json_text v \<noteq> []" by auto
    show "parse_members acc (join_commas (json_members ((k, v) # kvs)) @ CHR ''}'' # rest)
        = Inr (foldl (\<lambda>acc (k, v). obj_put acc k v) acc ((k, v) # kvs), rest)"
    proof (cases kvs)
      case Nil
      have "parse_value (json_text v @ CHR ''}'' # rest) = Inr (v, CHR ''}'' # rest)"
        using 16(1) nx by (simp add: delimited_def)
      from parse_members_last [OF this ne, of acc k] show ?thesis using Nil by simp
    next
      case (Cons y ys)
      then have nn: "kvs \<noteq> []" by simp
      define R where "R = join_commas (json_members kvs) @ CHR ''}'' # rest"
      have pv: "parse_value (json_text v @ CHR '','' # R) = Inr (v, CHR '','' # R)"
        using 16(1) nx by (simp add: delimited_def)
      have pm: "parse_members (obj_put acc k v) R
          = Inr (foldl (\<lambda>acc (k, v). obj_put acc k v) (obj_put acc k v) kvs, rest)"
        using 16(2) nl nn by (simp add: R_def)
      have jc: "join_commas (json_members ((k, v) # kvs)) @ CHR ''}'' # rest
          = quote k @ CHR '':'' # json_text v @ CHR '','' # R"
        using nn by (simp add: join_commas_more json_members_empty R_def)
      show ?thesis unfolding jc parse_members_more [OF pv ne, of acc k] pm by simp
    qed
  qed
qed simp_all

lemma json_parse_json_text: "json_native u \<Longrightarrow> json_parse (json_text u) = Inr u"
proof -
  assume "json_native u"
  moreover have "delimited []" by (simp add: delimited_def)
  ultimately have "parse_value (json_text u @ []) = Inr (u, [])"
    using json_text_parse(1) [of u] by blast
  then show ?thesis by (simp add: json_parse_def skip_ws_def)
qed

subsection \<open>With no codec registered\<close>

lemma replace_elements_none: "replacers reg = [] \<Longrightarrow> replace_elements reg xs = Inr xs"
  by (induction xs) (simp_all add: replace_elements.simps replace_value.simps)

lemma replace_props_none: "replacers reg = [] \<Longrightarrow> replace_props reg kvs = Inr kvs"
  by (induction kvs) (auto simp: replace_props.simps replace_value.simps)

lemma replacer_none: "replacers reg = [] \<Longrightarrow> replacer reg name v = Inr v"
  by (cases v) (simp_all add: replacer.simps replace_elements_none replace_props_none)

lemma serialize_none:
  "json_native v \<longrightarrow> (\<forall>key. serialize_property empty_registry key v = Inr (Some (json_text v), v))"
  "json_native_list xs \<longrightarrow> (\<forall>i. serialize_elements empty_registry i xs = Inr (json_texts xs, xs))"
  "json_native_props kvs \<longrightarrow> serialize_props empty_registry kvs = Inr (json_members kvs, kvs)"
proof (induction v and xs and kvs rule: json_native_json_native_list_json_native_props.induct)
  case (3 n)
  show ?case by (simp add: serialize_property_eq replacer_none empty_registry_def)
next
  case (5 xs)
  then show ?case by (simp add: serialize_property_eq replacer_none empty_registry_def)
next
  case (6 kvs)
  then show ?case by (simp add: serialize_property_eq replacer_none empty_registry_def)
next
  case (14 x xs)
  then show ?case by (simp add: serialize_elements.simps)
next
  case (16 k v kvs)
  then show ?case by (simp add: serialize_props.simps)
qed (simp_all add: serialize_property_eq replacer_none empty_registry_def
      serialize_elements.simps serialize_props.simps)

lemma internalize_none:
  "json_native v \<longrightarrow> (\<forall>name. internalize empty_registry name v = Inr v)"
  "json_native_list xs \<longrightarrow> (\<forall>i. internalize_elements empty_registry i xs = Inr xs)"
  "json_native_props kvs \<longrightarrow> internalize_props empty_registry kvs = Inr kvs"
proof (induction v and xs and kvs rule: json_native_json_native_list_json_native_props.induct)
  case (5 xs)
  then show ?case by (simp add: internalize.simps reviver.simps reviver_from.simps empty_registry_def)
next
  case (6 kvs)
  then show ?case by (simp add: internalize.simps reviver.simps reviver_from.simps empty_registry_def)
next
  case (14 x xs)
  then show ?case by (simp add: internalize_elements.simps)
next
  case (16 k v kvs)
  then show ?case by (simp add: internalize_props.simps)
qed (simp_all add: internalize.simps reviver.simps reviver_from.simps empty_registry_def
      internalize_elements.simps internalize_props.simps)

lemma round_trip_none: "json_native v \<Longrightarrow> round_trip empty_registry v"
  using serialize_none(1) [of v] internalize_none(1) [of v] json_parse_json_text [of v]
  by (simp add: round_trip_def stringify.simps parse.simps)

subsection \<open>With the standard codecs: what is written\<close>

lemma number_to_string_36: "number_to_string 36 n \<noteq> []"
proof (cases n)
  case (Whole i)
  then show ?thesis using int_to_string_plain [of 36 i] by simp
next
  case (Frac m k)
  have "digits_in 36 j \<noteq> []" for j using digits_in_props [of 36 j] by simp
  then show ?thesis by (simp add: Frac radix_text_def split: option.splits)
qed simp

lemma replace_value_std:
  "json_native x \<Longrightarrow>
   replace_value standard_registry (replacers standard_registry) x = Inr (replaced x)"
proof (cases x)
  case (VNum n)
  show ?thesis
    using number_to_string_36 [of n] unfolding VNum
    by (simp add: std_registry replace_value.simps call_replacer.simps std_checks
        number_replacer_def replaced_def)
qed (simp_all add: std_registry replace_value.simps call_replacer.simps std_checks replaced_def)

lemma replace_elements_std:
  "json_native_list xs \<Longrightarrow> replace_elements standard_registry xs = Inr (map replaced xs)"
  by (induction xs) (simp_all add: replace_elements.simps replace_value_std)

lemma replace_props_std:
  "json_native_props kvs \<Longrightarrow>
   replace_props standard_registry kvs = Inr (map (\<lambda>(k, v). (k, replaced v)) kvs)"
  by (induction kvs) (auto simp: replace_props.simps replace_value_std)

lemma serialize_child:
  assumes "\<forall>key. serialize_property reg key x = Inr (Some (json_text (tagged x)), tagged x)"
  shows "serialize_property reg key (replaced x)
     = Inr (Some (json_text (case x of VNum n \<Rightarrow> VStr (''(00)'' @ number_to_string 36 n) | _ \<Rightarrow> tagged x)),
            case x of VNum n \<Rightarrow> VStr (''(00)'' @ number_to_string 36 n) | _ \<Rightarrow> tagged x)"
  using assms by (cases x) (simp_all add: replaced_def serialize_property_string)

lemma serialize_std:
  "json_native v \<longrightarrow>
     (\<forall>key. serialize_property standard_registry key v = Inr (Some (json_text (tagged v)), tagged v))"
  "json_native_list xs \<longrightarrow>
     (\<forall>i. serialize_elements standard_registry i (map replaced xs)
        = Inr (json_texts (tagged_list xs), tagged_list xs))"
  "json_native_props kvs \<longrightarrow>
     serialize_props standard_registry (map (\<lambda>(k, v). (k, replaced v)) kvs)
        = Inr (json_members (tagged_props kvs), tagged_props kvs)"
proof (induction v and xs and kvs rule: json_native_json_native_list_json_native_props.induct)
  case (5 xs)
  then show ?case by (simp add: serialize_property_eq replacer.simps replace_elements_std)
next
  case (6 kvs)
  then show ?case by (simp add: serialize_property_eq replacer.simps replace_props_std)
next
  case (14 x xs)
  show ?case
  proof (intro impI allI)
    fix i
    assume "json_native_list (x # xs)"
    then have nx: "json_native x" and nl: "json_native_list xs" by simp_all
    from 14(1) nx have "\<forall>key. serialize_property standard_registry key x = Inr (Some (json_text (tagged x)), tagged x)"
      by simp
    note c = serialize_child [OF this]
    from 14(2) nl have r: "serialize_elements standard_registry (Suc i) (map replaced xs)
        = Inr (json_texts (tagged_list xs), tagged_list xs)" by simp
    show "serialize_elements standard_registry i (map replaced (x # xs))
        = Inr (json_texts (tagged_list (x # xs)), tagged_list (x # xs))"
      by (simp add: serialize_elements.simps c r)
  qed
next
  case (16 k v kvs)
  show ?case
  proof (intro impI)
    assume "json_native_props ((k, v) # kvs)"
    then have nx: "json_native v" and nl: "json_native_props kvs" by simp_all
    from 16(1) nx have "\<forall>key. serialize_property standard_registry key v = Inr (Some (json_text (tagged v)), tagged v)"
      by simp
    note c = serialize_child [OF this]
    from 16(2) nl have r: "serialize_props standard_registry (map (\<lambda>(k, v). (k, replaced v)) kvs)
        = Inr (json_members (tagged_props kvs), tagged_props kvs)" by simp
    show "serialize_props standard_registry (map (\<lambda>(k, v). (k, replaced v)) ((k, v) # kvs))
        = Inr (json_members (tagged_props ((k, v) # kvs)), tagged_props ((k, v) # kvs))"
      by (simp add: serialize_props.simps c r)
  qed
qed (simp_all add: serialize_property_eq replacer.simps serialize_elements.simps serialize_props.simps)

subsection \<open>With the standard codecs: what is read back\<close>

lemma insert_index_values:
  "insert_index i k (g v) (map (\<lambda>(k, v). (k, g v)) kvs)
     = map (\<lambda>(k, v). (k, g v)) (insert_index i k v kvs)"
  by (induction kvs) (auto split: option.splits)

lemma obj_put_values:
  "obj_put (map (\<lambda>(k, v). (k, g v)) acc) k (g v) = map (\<lambda>(k, v). (k, g v)) (obj_put acc k v)"
proof -
  have keys: "fst ` set (map (\<lambda>(k, v). (k, g v)) acc) = fst ` set acc" by force
  show ?thesis
    unfolding obj_put_def keys
    by (auto simp: insert_index_values split: option.splits)
qed

lemma foldl_obj_put_values:
  "foldl (\<lambda>acc (k, v). obj_put acc k v) (map (\<lambda>(k, v). (k, g v)) acc) (map (\<lambda>(k, v). (k, g v)) kvs)
     = map (\<lambda>(k, v). (k, g v)) (foldl (\<lambda>acc (k, v). obj_put acc k v) acc kvs)"
proof (induction kvs arbitrary: acc)
  case Nil
  show ?case by simp
next
  case (Cons kv kvs)
  obtain k v where kv: "kv = (k, v)" by (cases kv)
  show ?case using Cons [of "obj_put acc k v"] by (simp add: kv obj_put_values)
qed

lemma enumeration_order_values:
  "enumeration_order kvs \<Longrightarrow> enumeration_order (map (\<lambda>(k, v). (k, g v)) kvs)"
  using foldl_obj_put_values [of g "[]" kvs] by (simp add: enumeration_order_def)

lemma tagged_props_map:
  "tagged_props kvs
     = map (\<lambda>(k, v). (k, case v of VNum n \<Rightarrow> VStr (''(00)'' @ number_to_string 36 n) | _ \<Rightarrow> tagged v)) kvs"
  by (induction kvs) auto

lemma tagged_native:
  "json_native v \<longrightarrow> json_native (tagged v)"
  "json_native_list xs \<longrightarrow> json_native_list (tagged_list xs)"
  "json_native_props kvs \<longrightarrow> json_native_props (tagged_props kvs)"
proof (induction v and xs and kvs rule: json_native_json_native_list_json_native_props.induct)
  case (6 kvs)
  show ?case
  proof
    assume "json_native (VObj kvs)"
    then have eo: "enumeration_order kvs" and np: "json_native_props kvs" by simp_all
    from enumeration_order_values [OF eo] have "enumeration_order (tagged_props kvs)"
      by (simp add: tagged_props_map)
    with 6 np show "json_native (tagged (VObj kvs))" by simp
  qed
next
  case (14 x xs)
  then show ?case by (cases x) simp_all
next
  case (16 k v kvs)
  then show ?case by (cases v) simp_all
qed simp_all

lemma revive_untagged:
  "untagged s \<Longrightarrow> reviver standard_registry name (VStr s) = Inr (VStr s)"
  by (simp add: untagged_def std_registry reviver.simps reviver_from.simps)

lemma revive_number:
  assumes "safe_integer n" "n \<noteq> 0"
  shows "reviver standard_registry name (VStr (''(00)'' @ int_to_string 36 n)) = Inr (VNum (Whole n))"
  using parse_int36_int_to_string [OF assms(1)] assms(2)
  by (simp add: std_registry reviver.simps reviver_from.simps call_reviver.simps
      number_reviver_def parseInt36_def)

lemma internalize_child:
  assumes "case x of VNum n \<Rightarrow> restored_number n | _ \<Rightarrow> restorable x"
    and "restorable x \<Longrightarrow> \<forall>name. internalize standard_registry name (tagged x) = Inr x"
  shows "internalize standard_registry name
           (case x of VNum n \<Rightarrow> VStr (''(00)'' @ number_to_string 36 n) | _ \<Rightarrow> tagged x) = Inr x"
proof (cases x)
  case (VNum n)
  with assms(1) obtain i where i: "n = Whole i" "i \<noteq> 0" "\<bar>i\<bar> < 9007199254740992"
    by (cases n) auto
  then have "safe_integer i" by (simp add: safe_integer_def)
  from revive_number [OF this i(2)] show ?thesis
    unfolding VNum i(1) by (simp add: internalize.simps)
qed (use assms in simp_all)

lemma internalize_std:
  "json_native v \<longrightarrow> restorable v \<longrightarrow>
     (\<forall>name. internalize standard_registry name (tagged v) = Inr v)"
  "json_native_list xs \<longrightarrow> restorable_list xs \<longrightarrow>
     (\<forall>i. internalize_elements standard_registry i (tagged_list xs) = Inr xs)"
  "json_native_props kvs \<longrightarrow> restorable_props kvs \<longrightarrow>
     internalize_props standard_registry (tagged_props kvs) = Inr kvs"
proof (induction v and xs and kvs rule: json_native_json_native_list_json_native_props.induct)
  case (4 s)
  show ?case by (simp add: internalize.simps revive_untagged)
next
  case (5 xs)
  then show ?case by (simp add: internalize.simps reviver_other)
next
  case (6 kvs)
  then show ?case by (simp add: internalize.simps reviver_other)
next
  case (14 x xs)
  show ?case
  proof (intro impI allI)
    fix i
    assume "json_native_list (x # xs)" "restorable_list (x # xs)"
    then have h: "json_native x" "json_native_list xs"
      "case x of VNum n \<Rightarrow> restored_number n | _ \<Rightarrow> restorable x" "restorable_list xs" by simp_all
    from 14(1) h have "restorable x \<Longrightarrow> \<forall>name. internalize standard_registry name (tagged x) = Inr x"
      by simp
    note c = internalize_child [OF h(3) this]
    from 14(2) h have r: "internalize_elements standard_registry (Suc i) (tagged_list xs) = Inr xs"
      by simp
    show "internalize_elements standard_registry i (tagged_list (x # xs)) = Inr (x # xs)"
      by (simp add: internalize_elements.simps c r)
  qed
next
  case (16 k v kvs)
  show ?case
  proof (intro impI)
    assume "json_native_props ((k, v) # kvs)" "restorable_props ((k, v) # kvs)"
    then have h: "json_native v" "json_native_props kvs"
      "case v of VNum n \<Rightarrow> restored_number n | _ \<Rightarrow> restorable v" "restorable_props kvs" by simp_all
    from 16(1) h have "restorable v \<Longrightarrow> \<forall>name. internalize standard_registry name (tagged v) = Inr v"
      by simp
    note c = internalize_child [OF h(3) this]
    from 16(2) h have r: "internalize_props standard_registry (tagged_props kvs) = Inr kvs"
      by simp
    show "internalize_props standard_registry (tagged_props ((k, v) # kvs)) = Inr ((k, v) # kvs)"
      by (simp add: internalize_props.simps c r)
  qed
qed (simp_all add: internalize.simps reviver_other internalize_elements.simps internalize_props.simps)

lemma round_trip_std:
  assumes "json_native v" "restorable v"
  shows "round_trip standard_registry v"
proof -
  have s: "stringify standard_registry v = Inr (Some (json_text (tagged v)), tagged v)"
    using serialize_std(1) [of v] assms(1) by (simp add: stringify.simps)
  have n: "json_native (tagged v)" using tagged_native(1) [of v] assms(1) by simp
  have p: "parse standard_registry (json_text (tagged v)) = Inr v"
    using json_parse_json_text [OF n] internalize_std(1) [of v] assms by (simp add: parse.simps)
  show ?thesis by (simp add: round_trip_def s p)
qed

subsection \<open>The round trip\<close>

text \<open>
  C3, as stated: \<open>parse(stringify(v))\<close> equals \<open>v\<close> for every tree of JSON-native
  values whatever is registered, the standards included, and also when \<open>v\<close> holds
  numbers that are not integers.  After \<open>activateStandards()\<close> three trees of
  JSON-native values are not restored.  The object \<open>{ n: 0 }\<close> is written
  \<open>{"n":"(00)0"}\<close>; the number reviver returns \<open>0\<close> for it, which is falsy, so the
  string stays.  The object \<open>{ n: 1.5 }\<close> is written \<open>{"n":"(00)1.i"}\<close>, and
  \<open>parseInt\<close> stops at the point: the property comes back as \<open>1\<close>.  The object
  \<open>{ s: "(00)r" }\<close>, whose string begins with a standard tag, is written as it is
  and comes back as \<open>{ s: 27 }\<close>.
\<close>

theorem standards_do_not_restore:
  \<open>json_native (VObj [(''n'', VNum (Whole 0))])
   \<and> stringify (snd (activateStandards empty_registry)) (VObj [(''n'', VNum (Whole 0))])
     = Inr (Some ''{"n":"(00)0"}'', VObj [(''n'', VStr ''(00)0'')])
   \<and> parse (snd (activateStandards empty_registry)) ''{"n":"(00)0"}''
     = Inr (VObj [(''n'', VStr ''(00)0'')])
   \<and> \<not> round_trip (snd (activateStandards empty_registry)) (VObj [(''n'', VNum (Whole 0))])
   \<and> json_native (VObj [(''n'', VNum (Frac 3 1))])
   \<and> stringify (snd (activateStandards empty_registry)) (VObj [(''n'', VNum (Frac 3 1))])
     = Inr (Some ''{"n":"(00)1.i"}'', VObj [(''n'', VStr ''(00)1.i'')])
   \<and> parse (snd (activateStandards empty_registry)) ''{"n":"(00)1.i"}''
     = Inr (VObj [(''n'', VNum (Whole 1))])
   \<and> \<not> round_trip (snd (activateStandards empty_registry)) (VObj [(''n'', VNum (Frac 3 1))])
   \<and> json_native (VObj [(''s'', VStr ''(00)r'')])
   \<and> stringify (snd (activateStandards empty_registry)) (VObj [(''s'', VStr ''(00)r'')])
     = Inr (Some ''{"s":"(00)r"}'', VObj [(''s'', VStr ''(00)r'')])
   \<and> parse (snd (activateStandards empty_registry)) ''{"s":"(00)r"}''
     = Inr (VObj [(''s'', VNum (Whole 27))])
   \<and> \<not> round_trip (snd (activateStandards empty_registry)) (VObj [(''s'', VStr ''(00)r'')])\<close>
proof -
  have n: "json_native (VObj [(''n'', VNum (Whole 0))])"
    "json_native (VObj [(''n'', VNum (Frac 3 1))])"
    "json_native (VObj [(''s'', VStr ''(00)r'')])"
    by (simp_all add: enumeration_order_def obj_put_def array_index_def is_digit_in_def digit_value_def)
  have s0: \<open>stringify standard_registry (VObj [(''n'', VNum (Whole 0))])
     = Inr (Some ''{"n":"(00)0"}'', VObj [(''n'', VStr ''(00)0'')])\<close>
    by (simp add: encode_eval)
  have p0: \<open>parse standard_registry ''{"n":"(00)0"}'' = Inr (VObj [(''n'', VStr ''(00)0'')])\<close>
    by (simp add: json_eval decode_eval)
  have s1: \<open>stringify standard_registry (VObj [(''n'', VNum (Frac 3 1))])
     = Inr (Some ''{"n":"(00)1.i"}'', VObj [(''n'', VStr ''(00)1.i'')])\<close>
    by (simp add: stringify.simps serialize_property_eq serialize_elements.simps serialize_props.simps
      replacer.simps replace_elements.simps replace_props.simps replace_value.simps call_replacer.simps
      std_registry std_checks number_replacer_def one_and_a_half [simplified] quote_def quote_char_def)
  have p1: \<open>parse standard_registry ''{"n":"(00)1.i"}'' = Inr (VObj [(''n'', VNum (Whole 1))])\<close>
    by (simp add: json_eval decode_eval)
  have s2: \<open>stringify standard_registry (VObj [(''s'', VStr ''(00)r'')])
     = Inr (Some ''{"s":"(00)r"}'', VObj [(''s'', VStr ''(00)r'')])\<close>
    by (simp add: encode_eval)
  have p2: \<open>parse standard_registry ''{"s":"(00)r"}'' = Inr (VObj [(''s'', VNum (Whole 27))])\<close>
    by (simp add: json_eval decode_eval)
  show ?thesis
    unfolding activateStandards_fresh_snd round_trip_def s0 s1 s2 using n by (simp add: p0 p1 p2)
qed

text \<open>
  C3, amended.  For every tree \<open>v\<close> of JSON-native values (\<open>null\<close>, booleans, strings,
  finite numbers, and arrays and objects of such values, the properties of an object
  in the order the host enumerates them): with no codec registered,
  \<open>parse(stringify(v))\<close> returns the value \<open>v\<close> was before the call; after
  \<open>activateStandards()\<close> on a fresh registry it does so when every element and every
  property value in \<open>v\<close> that is a number is an integer other than \<open>0\<close> of magnitude
  below \<open>2^53\<close>, and no string in \<open>v\<close> begins with one of the standard tags.  (From
  \<open>2^53\<close> on the host's \<open>toString(36)\<close> does not write every digit of an integer.)
\<close>

theorem native_values_round_trip:
  assumes "json_native v"
  shows "round_trip empty_registry v
    \<and> (restorable v \<longrightarrow> round_trip (snd (activateStandards empty_registry)) v)"
  using round_trip_none [OF assms] round_trip_std [OF assms]
  by (simp add: activateStandards_fresh_snd)

theorem native_values_round_trip_witness:
  "json_native (VObj [(''0'', VNum (Whole 0)), (''half'', VNum (Frac (- 3) 1)), (''ok'', VBool True),
        (''none'', VNull), (''list'', VArr [VNum (Whole 1152921504606846976), VStr ''(00)r'', VArr []])])
   \<and> round_trip empty_registry
       (VObj [(''0'', VNum (Whole 0)), (''half'', VNum (Frac (- 3) 1)), (''ok'', VBool True),
        (''none'', VNull), (''list'', VArr [VNum (Whole 1152921504606846976), VStr ''(00)r'', VArr []])])
   \<and> json_native (VObj [(''1'', VNum (Whole 12)), (''age'', VNum (Whole 27)), (''alias'', VStr ''iljucha''),
        (''arr'', VArr [VStr ''iljucha'', VNum (Whole (- 27)), VBool False, VNull, VObj []])])
   \<and> restorable (VObj [(''1'', VNum (Whole 12)), (''age'', VNum (Whole 27)), (''alias'', VStr ''iljucha''),
        (''arr'', VArr [VStr ''iljucha'', VNum (Whole (- 27)), VBool False, VNull, VObj []])])
   \<and> round_trip (snd (activateStandards empty_registry))
       (VObj [(''1'', VNum (Whole 12)), (''age'', VNum (Whole 27)), (''alias'', VStr ''iljucha''),
        (''arr'', VArr [VStr ''iljucha'', VNum (Whole (- 27)), VBool False, VNull, VObj []])])"
proof -
  have n1: "json_native (VObj [(''0'', VNum (Whole 0)), (''half'', VNum (Frac (- 3) 1)), (''ok'', VBool True),
        (''none'', VNull), (''list'', VArr [VNum (Whole 1152921504606846976), VStr ''(00)r'', VArr []])])"
    by (simp add: enumeration_order_def obj_put_def array_index_def is_digit_in_def digit_value_def
        bit_length_numeral)
  have n2: "json_native (VObj [(''1'', VNum (Whole 12)), (''age'', VNum (Whole 27)), (''alias'', VStr ''iljucha''),
        (''arr'', VArr [VStr ''iljucha'', VNum (Whole (- 27)), VBool False, VNull, VObj []])])"
    by (simp add: enumeration_order_def obj_put_def array_index_def is_digit_in_def digit_value_def
        bit_length_numeral)
  have r2: "restorable (VObj [(''1'', VNum (Whole 12)), (''age'', VNum (Whole 27)), (''alias'', VStr ''iljucha''),
        (''arr'', VArr [VStr ''iljucha'', VNum (Whole (- 27)), VBool False, VNull, VObj []])])"
    by (simp add: untagged_def standards_def)
  from native_values_round_trip [OF n1] native_values_round_trip [OF n2] n1 n2 r2
  show ?thesis by simp
qed

end
